theory Spec2Isabelle
  imports Complex_Main "HOL-Library.Multiset"
begin

section \<open>The order generator: data model\<close>

text \<open>
  The exceptions the generator can raise: an out-of-range list access, a comparison of
  a complex number (the square root of a negative number) with an integer, a list
  search that finds nothing, and the refusal of \<open>random.choices\<close> to draw from weights
  whose total is not positive.
\<close>

datatype error = IndexError | TypeError | ValueError

text \<open>Sequencing of computations that may raise: the first exception ends the run.\<close>

definition and_then :: "error + 'a \<Rightarrow> ('a \<Rightarrow> error + 'b) \<Rightarrow> error + 'b" where
  "and_then r f = (case r of Inl e \<Rightarrow> Inl e | Inr x \<Rightarrow> f x)"

definition novelty_reset :: real where
  "novelty_reset = 5"

definition tea_types :: "string list" where
  "tea_types = [''classic'', ''milk tea'', ''punch'', ''milk cap'', ''yogurt'', ''slush'',
     ''milk strike'', ''espresso'']"

definition ice_categories :: "string list" where
  "ice_categories = [''no'', ''less'', ''regular'', ''more'']"

definition topping_list :: "string list" where
  "topping_list = [''tapioca'', ''pudding'', ''nata jelly'', ''red bean'',
     ''coffee popping bubbles'', ''herbal jelly'', ''grape popping bubbles'', ''aloe jelly'',
     ''mango popping bubbles'', ''lychee crystal bubbles'']"

text \<open>
  Python's list subscript \<open>xs[i]\<close>: an index from \<open>-len(xs)\<close> to \<open>-1\<close> counts from
  the end, anything outside \<open>-len(xs) .. len(xs) - 1\<close> raises IndexError.
  \<open>resolve n i\<close> is the position such a subscript denotes in a list of length \<open>n\<close>.
\<close>

definition resolve :: "nat \<Rightarrow> int \<Rightarrow> nat option" where
  "resolve n i =
     (if 0 \<le> i \<and> i < int n then Some (nat i)
      else if - int n \<le> i \<and> i < 0 then Some (nat (int n + i))
      else None)"

definition getitem :: "'a list \<Rightarrow> int \<Rightarrow> error + 'a" where
  "getitem xs i = (case resolve (length xs) i of None \<Rightarrow> Inl IndexError | Some j \<Rightarrow> Inr (xs ! j))"

text \<open>Python's \<open>int(x)\<close> on a float: truncation towards zero.\<close>

definition py_int :: "real \<Rightarrow> int" where
  "py_int x = (if 0 \<le> x then \<lfloor>x\<rfloor> else \<lceil>x\<rceil>)"

section \<open>Orders\<close>

text \<open>
  An \<open>Order\<close> object holds the chosen values themselves. Its constructor takes either
  integer indices (\<open>from_uniform=False\<close>), reduced modulo the size of the domain, or
  fractions (\<open>from_uniform=True\<close>), scaled by the size of the domain and truncated.
\<close>

record Order =
  toppings :: "string list"
  tea_type :: string
  sugar_percentage :: int
  ice_category :: string

datatype init_args =
  Indices "int list" int int int
  | Uniform "real list" real real real

text \<open>A list comprehension whose element expression may raise.\<close>

fun map_raising :: "('a \<Rightarrow> error + 'b) \<Rightarrow> 'a list \<Rightarrow> error + 'b list" where
  "map_raising f [] = Inr []"
| "map_raising f (x # xs) =
     and_then (f x) (\<lambda>y. and_then (map_raising f xs) (\<lambda>ys. Inr (y # ys)))"

fun Order_init :: "init_args \<Rightarrow> error + Order" where
  "Order_init (Indices ts tea sugar ice) =
     and_then (map_raising (\<lambda>t. getitem topping_list (t mod int (length topping_list))) ts)
       (\<lambda>tops.
     and_then (getitem tea_types (tea mod int (length tea_types)))
       (\<lambda>tea_name.
     and_then (getitem ice_categories (ice mod int (length ice_categories)))
       (\<lambda>ice_name.
     Inr \<lparr>toppings = tops, tea_type = tea_name, sugar_percentage = sugar mod 100,
          ice_category = ice_name\<rparr>)))"
| "Order_init (Uniform ts tea sugar ice) =
     and_then (map_raising (\<lambda>t. getitem topping_list (py_int (t * real (length topping_list)))) ts)
       (\<lambda>tops.
     and_then (getitem tea_types (py_int (tea * real (length tea_types))))
       (\<lambda>tea_name.
     and_then (getitem ice_categories (py_int (ice * real (length ice_categories))))
       (\<lambda>ice_name.
     Inr \<lparr>toppings = tops, tea_type = tea_name, sugar_percentage = py_int (sugar * 100),
          ice_category = ice_name\<rparr>)))"

text \<open>\<open>xs.index(x)\<close>: the position of the first occurrence, ValueError when there is none.\<close>

fun index_of :: "'a list \<Rightarrow> 'a \<Rightarrow> error + int" where
  "index_of [] x = Inl ValueError"
| "index_of (y # ys) x = (if y = x then Inr 0 else and_then (index_of ys x) (\<lambda>i. Inr (i + 1)))"

text \<open>
  The dictionary \<open>to_dict\<close> returns, and the history record it becomes once the date is
  stored under \<open>'date'\<close>. A date is modelled by its day number (its proleptic ordinal),
  so that the difference of two dates is their \<open>.days\<close>.
\<close>

record order_dict =
  d_toppings :: "int list"
  d_tea_type :: int
  d_sugar_percentage :: int
  d_ice_category :: int

record history_record = order_dict +
  d_date :: int

definition to_dict :: "Order \<Rightarrow> error + order_dict" where
  "to_dict ord =
     and_then (map_raising (index_of topping_list) (toppings ord))
       (\<lambda>tops.
     and_then (index_of tea_types (tea_type ord))
       (\<lambda>tea.
     and_then (index_of ice_categories (ice_category ord))
       (\<lambda>ice.
     Inr \<lparr>d_toppings = tops, d_tea_type = tea, d_sugar_percentage = sugar_percentage ord,
          d_ice_category = ice\<rparr>)))"

definition with_date :: "order_dict \<Rightarrow> int \<Rightarrow> history_record" where
  "with_date d today =
     \<lparr>d_toppings = d_toppings d, d_tea_type = d_tea_type d,
      d_sugar_percentage = d_sugar_percentage d, d_ice_category = d_ice_category d,
      d_date = today\<rparr>"

text \<open>Reading a stored dictionary back through the constructor (\<open>from_uniform=False\<close>).\<close>

definition args_of_dict :: "order_dict \<Rightarrow> init_args" where
  "args_of_dict d = Indices (d_toppings d) (d_tea_type d) (d_sugar_percentage d) (d_ice_category d)"

section \<open>The novelty penalty\<close>

text \<open>
  \<open>novelty_penalty(days)\<close> is \<open>max(1 - ((novelty_reset * days)**0.5)/novelty_reset, 0)\<close>.
  Floats are modelled as reals. For a negative product Python's \<open>** 0.5\<close> yields a
  complex number, and \<open>max\<close> of a complex number and \<open>0\<close> raises TypeError.
\<close>

definition novelty_penalty :: "real \<Rightarrow> error + real" where
  "novelty_penalty days =
     (if novelty_reset * days < 0 then Inl TypeError
      else Inr (max (1 - sqrt (novelty_reset * days) / novelty_reset) 0))"

section \<open>The novelty scorer\<close>

text \<open>
  The three weight lists \<open>novelty_factors\<close> of \<open>new_order\<close>, one per categorical domain,
  all weights starting at 1.
\<close>

record novelty_factors =
  nf_toppings :: "real list"
  nf_tea_type :: "real list"
  nf_ice_category :: "real list"

definition initial_factors :: novelty_factors where
  "initial_factors =
     \<lparr>nf_toppings = map (\<lambda>_. 1) topping_list,
      nf_tea_type = map (\<lambda>_. 1) tea_types,
      nf_ice_category = map (\<lambda>_. 1) ice_categories\<rparr>"

text \<open>
  \<open>v[i] = max(v[i] - penalty, 0)\<close>, with Python's subscript: the read raises IndexError
  when \<open>i\<close> is out of range.
\<close>

definition penalize :: "real \<Rightarrow> real list \<Rightarrow> int \<Rightarrow> error + real list" where
  "penalize penalty v i =
     (case resolve (length v) i of
        None \<Rightarrow> Inl IndexError
      | Some j \<Rightarrow> Inr (v[j := max (v ! j - penalty) 0]))"

text \<open>The inner loop \<open>for topping in order['toppings']\<close>.\<close>

fun penalize_all :: "real \<Rightarrow> int list \<Rightarrow> real list \<Rightarrow> error + real list" where
  "penalize_all penalty [] v = Inr v"
| "penalize_all penalty (t # ts) v = and_then (penalize penalty v t) (penalize_all penalty ts)"

text \<open>The body of the loop over the previous orders, for one record.\<close>

definition score_order :: "int \<Rightarrow> history_record \<Rightarrow> novelty_factors \<Rightarrow> error + novelty_factors" where
  "score_order today r nf =
     (let days_since = today - d_date r in
      and_then (novelty_penalty (real_of_int days_since))
        (\<lambda>penalty.
      and_then (penalize_all penalty (d_toppings r) (nf_toppings nf))
        (\<lambda>tops.
      and_then (penalize penalty (nf_tea_type nf) (d_tea_type r))
        (\<lambda>teas.
      and_then (penalize penalty (nf_ice_category nf) (d_ice_category r))
        (\<lambda>ices.
      Inr \<lparr>nf_toppings = tops, nf_tea_type = teas, nf_ice_category = ices\<rparr>)))))"

fun score_history ::
  "int \<Rightarrow> history_record list \<Rightarrow> novelty_factors \<Rightarrow> error + novelty_factors" where
  "score_history today [] nf = Inr nf"
| "score_history today (r # rs) nf = and_then (score_order today r nf) (score_history today rs)"

definition compute_factors :: "int \<Rightarrow> history_record list \<Rightarrow> error + novelty_factors" where
  "compute_factors today previous_orders = score_history today previous_orders initial_factors"

text \<open>
  A history as the generator itself writes it: no record is dated after today, and
  every stored index is a position of its domain.
\<close>

definition well_formed_record :: "int \<Rightarrow> history_record \<Rightarrow> bool" where
  "well_formed_record today r \<longleftrightarrow>
     d_date r \<le> today
     \<and> list_all (\<lambda>t. 0 \<le> t \<and> t < int (length topping_list)) (d_toppings r)
     \<and> 0 \<le> d_tea_type r \<and> d_tea_type r < int (length tea_types)
     \<and> 0 \<le> d_ice_category r \<and> d_ice_category r < int (length ice_categories)"

definition well_formed :: "int \<Rightarrow> history_record list \<Rightarrow> bool" where
  "well_formed today previous_orders = list_all (well_formed_record today) previous_orders"

text \<open>
  The quantities the closed form of the weights is written with: the penalty of a
  record (for a record that is not dated after today), and the list of the weights
  \<open>max (1 - S j) 0\<close> for the positions \<open>j\<close> of a domain of size \<open>n\<close>.
\<close>

definition penalty_of :: "int \<Rightarrow> history_record \<Rightarrow> real" where
  "penalty_of today r = max (1 - sqrt (5 * real_of_int (today - d_date r)) / 5) 0"

definition clamped :: "nat \<Rightarrow> (nat \<Rightarrow> real) \<Rightarrow> real list" where
  "clamped n S = map (\<lambda>j. max (1 - S j) 0) [0..<n]"

text \<open>
  The penalties a history charges to position \<open>j\<close> of a domain: for a topping, every
  occurrence in a record's topping list counts; for a tea type or an ice category, every
  record that stores \<open>j\<close>.
\<close>

definition topping_penalties :: "int \<Rightarrow> history_record list \<Rightarrow> nat \<Rightarrow> real" where
  "topping_penalties today h j =
     (\<Sum>r\<leftarrow>h. real (count_list (d_toppings r) (int j)) * penalty_of today r)"

definition tea_penalties :: "int \<Rightarrow> history_record list \<Rightarrow> nat \<Rightarrow> real" where
  "tea_penalties today h j = (\<Sum>r\<leftarrow>filter (\<lambda>r. d_tea_type r = int j) h. penalty_of today r)"

definition ice_penalties :: "int \<Rightarrow> history_record list \<Rightarrow> nat \<Rightarrow> real" where
  "ice_penalties today h j = (\<Sum>r\<leftarrow>filter (\<lambda>r. d_ice_category r = int j) h. penalty_of today r)"

text \<open>
  The sum over exactly the records that reference a topping: one penalty for each such
  record, however often the record lists the topping.
\<close>

definition referencing_penalties :: "int \<Rightarrow> history_record list \<Rightarrow> nat \<Rightarrow> real" where
  "referencing_penalties today h j =
     (\<Sum>r\<leftarrow>filter (\<lambda>r. int j \<in> set (d_toppings r)) h. penalty_of today r)"

definition unit_weights :: "real list \<Rightarrow> bool" where
  "unit_weights v = list_all (\<lambda>w. 0 \<le> w \<and> w \<le> 1) v"

definition unit_factors :: "novelty_factors \<Rightarrow> bool" where
  "unit_factors nf \<longleftrightarrow>
     unit_weights (nf_toppings nf) \<and> unit_weights (nf_tea_type nf) \<and> unit_weights (nf_ice_category nf)"

text \<open>What the scorer reads of a record: its three index fields and its age in days.\<close>

definition scored_part :: "int \<Rightarrow> history_record \<Rightarrow> int list \<times> int \<times> int \<times> int" where
  "scored_part today r = (d_toppings r, d_tea_type r, d_ice_category r, today - d_date r)"

section \<open>Random draws\<close>

text \<open>
  The generator draws through Python's \<open>random\<close> module. The values the module's
  generator yields are inputs of the model: \<open>random.random()\<close> yields a float \<open>u\<close> with
  \<open>0 \<le> u < 1\<close>, and \<open>random.choice(seq)\<close> returns \<open>seq[r]\<close> for an integer \<open>r\<close>
  below \<open>len(seq)\<close>.

  \<open>random.choices(range(n), weights, k)\<close> follows the standard library. Without
  weights each draw \<open>u\<close> selects \<open>floor(u * n)\<close>. With weights, it accumulates them
  into running sums, rejects a total that is not positive, and each draw selects
  \<open>bisect(cum_weights, u * total, 0, n - 1)\<close>, the binary search \<open>bisect_right\<close>.
\<close>

fun accumulate_from :: "real \<Rightarrow> real list \<Rightarrow> real list" where
  "accumulate_from s [] = []"
| "accumulate_from s (w # ws) = (s + w) # accumulate_from (s + w) ws"

definition accumulate :: "real list \<Rightarrow> real list" where
  "accumulate ws = accumulate_from 0 ws"

function bisect :: "real list \<Rightarrow> real \<Rightarrow> nat \<Rightarrow> nat \<Rightarrow> nat" where
  "bisect a x lo hi =
     (if lo < hi then
        (let mid = (lo + hi) div 2
         in if x < a ! mid then bisect a x lo mid else bisect a x (mid + 1) hi)
      else lo)"
  by pat_completeness auto
termination
  by (relation "measure (\<lambda>(a, x, lo, hi). hi - lo)") auto

declare bisect.simps [simp del]

text \<open>\<open>range(n)[i]\<close>.\<close>

definition range_item :: "nat \<Rightarrow> int \<Rightarrow> error + int" where
  "range_item n i = (case resolve n i of None \<Rightarrow> Inl IndexError | Some j \<Rightarrow> Inr (int j))"

text \<open>
  \<open>choices n weights k draw\<close> is \<open>random.choices(range(n), weights=weights, k=k)\<close>
  when the \<open>i\<close>-th call of \<open>random()\<close> it makes yields \<open>draw i\<close>.
\<close>

definition choices :: "nat \<Rightarrow> real list option \<Rightarrow> nat \<Rightarrow> (nat \<Rightarrow> real) \<Rightarrow> error + int list" where
  "choices n weights k draw =
     (case weights of
        None \<Rightarrow> map_raising (\<lambda>i. range_item n \<lfloor>draw i * real n\<rfloor>) [0..<k]
      | Some ws \<Rightarrow>
          (let cum_weights = accumulate ws in
           if length cum_weights \<noteq> n then Inl ValueError
           else if cum_weights = [] then Inl IndexError
           else
             (let total = last cum_weights in
              if total \<le> 0 then Inl ValueError
              else map_raising
                (\<lambda>i. range_item n (int (bisect cum_weights (draw i * total) 0 (n - 1))))
                [0..<k])))"

text \<open>
  The selector's rule for one domain with weight list \<open>v\<close>:
  \<open>random.choices(range(len(v)), weights=None if sum(v) == 0 else v, k=k)\<close>.
\<close>

definition draw_from :: "real list \<Rightarrow> nat \<Rightarrow> (nat \<Rightarrow> real) \<Rightarrow> error + int list" where
  "draw_from v k draw = choices (length v) (if sum_list v = 0 then None else Some v) k draw"

text \<open>
  The values the random generator yields during one run of \<open>new_order\<close>: the position
  \<open>random.choice(range(1, 4))\<close> picks, the floats \<open>random.choices\<close> consumes for the
  toppings, and the floats behind the tea type, the sugar percentage and the ice
  category.
\<close>

record draws =
  count_draw :: nat
  topping_draws :: "nat \<Rightarrow> real"
  tea_draw :: real
  sugar_draw :: real
  ice_draw :: real

definition unit_draw :: "real \<Rightarrow> bool" where
  "unit_draw u \<longleftrightarrow> 0 \<le> u \<and> u < 1"

definition valid_draws :: "draws \<Rightarrow> bool" where
  "valid_draws d \<longleftrightarrow>
     count_draw d < 3 \<and> list_all (\<lambda>i. unit_draw (topping_draws d i)) [0..<3]
     \<and> unit_draw (tea_draw d) \<and> unit_draw (sugar_draw d) \<and> unit_draw (ice_draw d)"

text \<open>\<open>random.choice(range(1, 4))\<close>, the number of topping draws.\<close>

definition topping_count :: "draws \<Rightarrow> error + int" where
  "topping_count d = getitem [1, 2, 3] (int (count_draw d))"

section \<open>Generating an order\<close>

text \<open>\<open>Order.generate_first()\<close>: the constructor arguments of a first order.\<close>

definition generate_first :: "draws \<Rightarrow> error + init_args" where
  "generate_first d =
     and_then (topping_count d)
       (\<lambda>k.
     and_then (choices (length topping_list) None (nat k) (topping_draws d))
       (\<lambda>ts.
     Inr (Uniform (map (\<lambda>t. real_of_int t / real (length topping_list)) ts)
            (tea_draw d) (sugar_draw d) (ice_draw d))))"

text \<open>
  \<open>new_order()\<close>, from the stored history to the order and the history it stores. An
  exception leaves the stored history as it was, since the file is written last.
  \<open>list(set(xs))\<close> keeps one copy of each element; Python does not specify the order
  of a set, \<open>remdups\<close> stands for it.
\<close>

definition new_order ::
  "int \<Rightarrow> history_record list \<Rightarrow> draws \<Rightarrow> error + Order \<times> history_record list" where
  "new_order today previous_orders d =
     (if length previous_orders = 0 then
        and_then (generate_first d)
          (\<lambda>args.
        and_then (Order_init args)
          (\<lambda>this_order.
        and_then (to_dict this_order)
          (\<lambda>this_order_dict.
        Inr (this_order, [with_date this_order_dict today]))))
      else
        and_then (compute_factors today previous_orders)
          (\<lambda>nf.
        let sugar = py_int (sugar_draw d * 100) in
        and_then (topping_count d)
          (\<lambda>k.
        and_then (draw_from (nf_toppings nf) (nat k) (topping_draws d))
          (\<lambda>ts.
        and_then (and_then (draw_from (nf_tea_type nf) 1 (\<lambda>_. tea_draw d)) (\<lambda>xs. getitem xs 0))
          (\<lambda>tea.
        and_then (and_then (draw_from (nf_ice_category nf) 1 (\<lambda>_. ice_draw d)) (\<lambda>xs. getitem xs 0))
          (\<lambda>ice.
        and_then (Order_init (Indices (remdups ts) tea sugar ice))
          (\<lambda>this_order.
        and_then (to_dict this_order)
          (\<lambda>this_order_dict.
        Inr (this_order, previous_orders @ [with_date this_order_dict today])))))))))"

section \<open>Facts about the basic operations\<close>

lemma and_then_Inr [simp]: "and_then (Inr x) f = f x"
  by (simp add: and_then_def)

lemma and_then_Inl [simp]: "and_then (Inl e) f = Inl e"
  by (simp add: and_then_def)

lemma and_then_eq_Inr:
  "and_then r f = Inr y \<longleftrightarrow> (\<exists>x. r = Inr x \<and> f x = Inr y)"
  by (cases r) simp_all

lemma resolve_in_range: "0 \<le> i \<Longrightarrow> i < int n \<Longrightarrow> resolve n i = Some (nat i)"
  by (simp add: resolve_def)

lemma getitem_in_range:
  "0 \<le> i \<Longrightarrow> i < int (length xs) \<Longrightarrow> getitem xs i = Inr (xs ! nat i)"
  by (simp add: getitem_def resolve_in_range)

lemma getitem_mod:
  "xs \<noteq> [] \<Longrightarrow> getitem xs (i mod int (length xs)) = Inr (xs ! nat (i mod int (length xs)))"
  by (rule getitem_in_range) simp_all

lemma map_raising_total:
  "(\<And>x. x \<in> set xs \<Longrightarrow> f x = Inr (g x)) \<Longrightarrow> map_raising f xs = Inr (map g xs)"
  by (induction xs) simp_all

lemma py_int_fraction:
  assumes "0 \<le> x" "x < 1" "0 < n"
  shows "0 \<le> py_int (x * real n)" "py_int (x * real n) < int n"
proof -
  have nn: "0 \<le> x * real n" using assms by simp
  then show "0 \<le> py_int (x * real n)" by (simp add: py_int_def)
  have "x * real n < real n" using assms by simp
  then have "\<lfloor>x * real n\<rfloor> < int n" by (simp add: floor_less_iff)
  then show "py_int (x * real n) < int n" using nn by (simp add: py_int_def)
qed

lemma index_of_nth:
  "distinct xs \<Longrightarrow> i < length xs \<Longrightarrow> index_of xs (xs ! i) = Inr (int i)"
proof (induction xs arbitrary: i)
  case Nil
  then show ?case by simp
next
  case (Cons y ys)
  show ?case
  proof (cases i)
    case 0
    then show ?thesis by simp
  next
    case (Suc j)
    then have "ys ! j \<in> set ys" "j < length ys" using Cons.prems by simp_all
    then have "y \<noteq> ys ! j" using Cons.prems by auto
    then show ?thesis using Cons Suc by simp
  qed
qed

lemma distinct_topping_list: "distinct topping_list"
  by (simp add: topping_list_def)

lemma distinct_tea_types: "distinct tea_types"
  by (simp add: tea_types_def)

lemma distinct_ice_categories: "distinct ice_categories"
  by (simp add: ice_categories_def)

lemma length_topping_list [simp]: "length topping_list = 10"
  by (simp add: topping_list_def)

lemma length_tea_types [simp]: "length tea_types = 8"
  by (simp add: tea_types_def)

lemma length_ice_categories [simp]: "length ice_categories = 4"
  by (simp add: ice_categories_def)

lemma nonempty_domains [simp]: "topping_list \<noteq> []" "tea_types \<noteq> []" "ice_categories \<noteq> []"
  by (simp_all add: topping_list_def tea_types_def ice_categories_def)

text \<open>The constructor on integer indices never raises.\<close>

lemma Order_init_Indices:
  "Order_init (Indices ts tea sugar ice) =
     Inr \<lparr>toppings = map (\<lambda>t. topping_list ! nat (t mod 10)) ts,
          tea_type = tea_types ! nat (tea mod 8),
          sugar_percentage = sugar mod 100,
          ice_category = ice_categories ! nat (ice mod 4)\<rparr>"
proof -
  have "map_raising (\<lambda>t. getitem topping_list (t mod int (length topping_list))) ts =
          Inr (map (\<lambda>t. topping_list ! nat (t mod 10)) ts)"
    by (rule map_raising_total) (use getitem_mod [of topping_list] in simp)
  moreover have "getitem tea_types (tea mod int (length tea_types)) = Inr (tea_types ! nat (tea mod 8))"
    using getitem_mod [of tea_types tea] by simp
  moreover have "getitem ice_categories (ice mod int (length ice_categories)) =
      Inr (ice_categories ! nat (ice mod 4))"
    using getitem_mod [of ice_categories ice] by simp
  ultimately show ?thesis by simp
qed

lemma Order_init_Uniform:
  assumes "\<forall>t \<in> set ts. 0 \<le> t \<and> t < 1" "0 \<le> tea" "tea < 1" "0 \<le> ice" "ice < 1"
  shows "Order_init (Uniform ts tea sugar ice) =
     Inr \<lparr>toppings = map (\<lambda>t. topping_list ! nat (py_int (t * 10))) ts,
          tea_type = tea_types ! nat (py_int (tea * 8)),
          sugar_percentage = py_int (sugar * 100),
          ice_category = ice_categories ! nat (py_int (ice * 4))\<rparr>"
proof -
  have "map_raising (\<lambda>t. getitem topping_list (py_int (t * real (length topping_list)))) ts =
          Inr (map (\<lambda>t. topping_list ! nat (py_int (t * 10))) ts)"
  proof (rule map_raising_total)
    fix t assume "t \<in> set ts"
    then have "0 \<le> t" "t < 1" using assms by auto
    from py_int_fraction [OF this, of 10]
    show "getitem topping_list (py_int (t * real (length topping_list))) =
        Inr (topping_list ! nat (py_int (t * 10)))"
      by (simp add: getitem_in_range)
  qed
  moreover have "getitem tea_types (py_int (tea * real (length tea_types))) =
      Inr (tea_types ! nat (py_int (tea * 8)))"
    using py_int_fraction [of tea 8] assms by (simp add: getitem_in_range)
  moreover have "getitem ice_categories (py_int (ice * real (length ice_categories))) =
      Inr (ice_categories ! nat (py_int (ice * 4)))"
    using py_int_fraction [of ice 4] assms by (simp add: getitem_in_range)
  ultimately show ?thesis by simp
qed

lemma index_of_sound:
  "index_of xs x = Inr k \<Longrightarrow> 0 \<le> k \<and> k < int (length xs) \<and> xs ! nat k = x"
proof (induction xs arbitrary: k)
  case Nil
  then show ?case by simp
next
  case (Cons y ys)
  show ?case
  proof (cases "y = x")
    case True
    then show ?thesis using Cons.prems by simp
  next
    case False
    then obtain j where j: "index_of ys x = Inr j" "k = j + 1"
      using Cons.prems by (auto simp: and_then_eq_Inr)
    from Cons.IH [OF j(1)] have "0 \<le> j" "j < int (length ys)" "ys ! nat j = x"
      by simp_all
    then show ?thesis using j(2) by (simp add: nat_add_distrib)
  qed
qed

lemma index_of_total: "x \<in> set xs \<Longrightarrow> \<exists>k. index_of xs x = Inr k"
  by (induction xs) auto

text \<open>
  Looking a value of a non-empty domain up and reading the index back, modulo the
  size of the domain, returns the value.
\<close>

lemma index_round_trip:
  assumes "x \<in> set xs"
  shows "\<exists>k. index_of xs x = Inr k \<and> xs ! nat (k mod int (length xs)) = x"
proof -
  obtain k where k: "index_of xs x = Inr k"
    using index_of_total [OF assms] by blast
  from index_of_sound [OF k] have "k mod int (length xs) = k" "xs ! nat k = x"
    by simp_all
  then show ?thesis using k by simp
qed

lemma map_index_round_trip:
  assumes "set ys \<subseteq> set xs"
  shows "\<exists>ks. map_raising (index_of xs) ys = Inr ks
           \<and> map (\<lambda>k. xs ! nat (k mod int (length xs))) ks = ys"
  using assms
proof (induction ys)
  case Nil
  then show ?case by simp
next
  case (Cons y ys)
  then obtain ks where ks: "map_raising (index_of xs) ys = Inr ks"
      "map (\<lambda>k. xs ! nat (k mod int (length xs))) ks = ys"
    by auto
  obtain k where k: "index_of xs y = Inr k" "xs ! nat (k mod int (length xs)) = y"
    using index_round_trip [of y xs] Cons.prems by auto
  show ?case using ks k by simp
qed

text \<open>
  An order whose values lie in their domains and whose sugar percentage lies in
  \<open>[0, 100)\<close> survives \<open>to_dict\<close> followed by the constructor on indices.
\<close>

lemma to_dict_round_trip:
  assumes "set (toppings ord) \<subseteq> set topping_list" "tea_type ord \<in> set tea_types"
    "ice_category ord \<in> set ice_categories"
    "0 \<le> sugar_percentage ord" "sugar_percentage ord < 100"
  shows "\<exists>d. to_dict ord = Inr d \<and> Order_init (args_of_dict d) = Inr ord"
proof -
  obtain ks where ks: "map_raising (index_of topping_list) (toppings ord) = Inr ks"
      "map (\<lambda>k. topping_list ! nat (k mod 10)) ks = toppings ord"
    using map_index_round_trip [OF assms(1)] by auto
  obtain kt where kt: "index_of tea_types (tea_type ord) = Inr kt"
      "tea_types ! nat (kt mod 8) = tea_type ord"
    using index_round_trip [OF assms(2)] by auto
  obtain ki where ki: "index_of ice_categories (ice_category ord) = Inr ki"
      "ice_categories ! nat (ki mod 4) = ice_category ord"
    using index_round_trip [OF assms(3)] by auto
  let ?d = "\<lparr>d_toppings = ks, d_tea_type = kt, d_sugar_percentage = sugar_percentage ord,
             d_ice_category = ki\<rparr>"
  have "to_dict ord = Inr ?d"
    by (simp add: to_dict_def ks kt ki)
  moreover have "Order_init (args_of_dict ?d) = Inr ord"
    using ks(2) kt(2) ki(2) assms(4,5)
    by (simp add: args_of_dict_def Order_init_Indices del: Order_init.simps)
  ultimately show ?thesis by blast
qed

text \<open>
  Claim C6. The constructor's comment admits fractions \<open>0.0 <= x <= 1.0\<close> for
  \<open>from_uniform=True\<close>. At the fraction \<open>1.0\<close> the scaled index is the size of the
  domain, and the lookup raises IndexError; fractions below 1 and all integer indices
  are safe (\<open>Order_init_Uniform\<close>, \<open>Order_init_Indices\<close>).
\<close>

theorem Order_init_Uniform_one_raises:
  "Order_init (Uniform [1] (1 / 2) (1 / 2) (1 / 2)) = Inl IndexError"
  by (simp add: topping_list_def py_int_def getitem_def resolve_def)

text \<open>
  Claim C8. An order built from fractions with the sugar fraction \<open>1.0\<close> has sugar
  percentage 100; \<open>to_dict\<close> keeps the 100, and the constructor on indices reduces it
  modulo 100 to 0, so the round trip changes the order. Orders with a sugar percentage
  in \<open>[0, 100)\<close> are reproduced (\<open>to_dict_round_trip\<close>).
\<close>

theorem round_trip_changes_sugar_100:
  "Order_init (Uniform [1 / 2] (1 / 2) 1 (1 / 2)) =
     Inr \<lparr>toppings = [''herbal jelly''], tea_type = ''yogurt'', sugar_percentage = 100,
          ice_category = ''regular''\<rparr>
   \<and> to_dict \<lparr>toppings = [''herbal jelly''], tea_type = ''yogurt'', sugar_percentage = 100,
          ice_category = ''regular''\<rparr> =
     Inr \<lparr>d_toppings = [5], d_tea_type = 4, d_sugar_percentage = 100, d_ice_category = 2\<rparr>
   \<and> Order_init (args_of_dict
        \<lparr>d_toppings = [5], d_tea_type = 4, d_sugar_percentage = 100, d_ice_category = 2\<rparr>) =
     Inr \<lparr>toppings = [''herbal jelly''], tea_type = ''yogurt'', sugar_percentage = 0,
          ice_category = ''regular''\<rparr>"
  by (simp add: to_dict_def args_of_dict_def topping_list_def tea_types_def ice_categories_def
      py_int_def getitem_def resolve_def)

section \<open>Facts about the scorer's updates\<close>

lemma clamp_accumulates:
  fixes s p :: real
  assumes "0 \<le> p"
  shows "max (max (1 - s) 0 - p) 0 = max (1 - (s + p)) 0"
  using assms by linarith

lemma length_clamped [simp]: "length (clamped n S) = n"
  by (simp add: clamped_def)

lemma nth_clamped [simp]: "j < n \<Longrightarrow> clamped n S ! j = max (1 - S j) 0"
  by (simp add: clamped_def)

lemma penalize_clamped:
  assumes "0 \<le> p" "0 \<le> i" "i < int n"
  shows "penalize p (clamped n S) i = Inr (clamped n (\<lambda>j. S j + (if int j = i then p else 0)))"
proof -
  have "(clamped n S)[nat i := max (clamped n S ! nat i - p) 0] =
          clamped n (\<lambda>j. S j + (if int j = i then p else 0))"
  proof (rule nth_equalityI)
    show "length ((clamped n S)[nat i := max (clamped n S ! nat i - p) 0]) =
        length (clamped n (\<lambda>j. S j + (if int j = i then p else 0)))"
      by simp
  next
    fix j assume "j < length ((clamped n S)[nat i := max (clamped n S ! nat i - p) 0])"
    then have j: "j < n" by simp
    show "(clamped n S)[nat i := max (clamped n S ! nat i - p) 0] ! j =
        clamped n (\<lambda>j. S j + (if int j = i then p else 0)) ! j"
    proof (cases "int j = i")
      case True
      then have "nat i = j" by simp
      then show ?thesis using j True clamp_accumulates [OF assms(1), of "S j"] by simp
    next
      case False
      then have "nat i \<noteq> j" using assms(2) by auto
      then show ?thesis using j False by simp
    qed
  qed
  then show ?thesis using assms by (simp add: penalize_def resolve_in_range)
qed

lemma penalize_all_clamped:
  assumes "0 \<le> p" "list_all (\<lambda>t. 0 \<le> t \<and> t < int n) ts"
  shows "penalize_all p ts (clamped n S) =
           Inr (clamped n (\<lambda>j. S j + real (count_list ts (int j)) * p))"
  using assms(2)
proof (induction ts arbitrary: S)
  case Nil
  then show ?case by simp
next
  case (Cons t ts)
  then have t: "0 \<le> t" "t < int n" and ts: "list_all (\<lambda>t. 0 \<le> t \<and> t < int n) ts"
    by simp_all
  have "(\<lambda>j. S j + (if int j = t then p else 0) + real (count_list ts (int j)) * p) =
      (\<lambda>j. S j + real (count_list (t # ts) (int j)) * p)"
    by (auto simp: algebra_simps)
  then show ?case
    using penalize_clamped [OF assms(1) t, of S] Cons.IH [OF ts] by (simp del: count_list.simps)
qed

section \<open>Properties of the novelty penalty\<close>

lemma novelty_penalty_value:
  "0 \<le> d \<Longrightarrow> novelty_penalty d = Inr (max (1 - sqrt (5 * d) / 5) 0)"
  by (simp add: novelty_penalty_def novelty_reset_def not_less)

text \<open>
  Claim C2. For every real \<open>d \<ge> 0\<close> the penalty is \<open>max (1 - sqrt (5 d) / 5) 0\<close>;
  it is 1 at \<open>d = 0\<close>, it is 0 from \<open>d = 5\<close> on, it does not increase as \<open>d\<close> grows,
  and it is never negative.
\<close>

theorem novelty_penalty_properties:
  assumes "0 \<le> d"
  shows "\<exists>p. novelty_penalty d = Inr p \<and> p = max (1 - sqrt (5 * d) / 5) 0 \<and> 0 \<le> p
           \<and> (d = 0 \<longrightarrow> p = 1) \<and> (5 \<le> d \<longrightarrow> p = 0)
           \<and> (\<forall>e. d \<le> e \<longrightarrow> (\<exists>q. novelty_penalty e = Inr q \<and> q \<le> p))"
proof -
  let ?p = "max (1 - sqrt (5 * d) / 5) 0"
  have val: "novelty_penalty d = Inr ?p"
    using assms by (rule novelty_penalty_value)
  have late: "?p = 0" if "5 \<le> d"
  proof -
    have "sqrt (5 * 5) \<le> sqrt (5 * d)"
      using that by (intro real_sqrt_le_mono) simp
    then have "5 \<le> sqrt (5 * d)" by simp
    then show ?thesis by simp
  qed
  have mono: "\<exists>q. novelty_penalty e = Inr q \<and> q \<le> ?p" if "d \<le> e" for e
  proof -
    have "0 \<le> e" using assms that by simp
    then have "novelty_penalty e = Inr (max (1 - sqrt (5 * e) / 5) 0)"
      by (rule novelty_penalty_value)
    moreover have "sqrt (5 * d) \<le> sqrt (5 * e)"
      using that by (intro real_sqrt_le_mono) simp
    then have "max (1 - sqrt (5 * e) / 5) 0 \<le> ?p" by linarith
    ultimately show ?thesis by simp
  qed
  show ?thesis
    using val late mono by (intro exI [of _ ?p]) simp
qed

theorem novelty_penalty_properties_witness:
  "(0::real) \<le> 5 \<and> novelty_penalty 5 = Inr 0 \<and> novelty_penalty 0 = Inr 1"
  using novelty_penalty_properties [of 5] novelty_penalty_properties [of 0] by auto

section \<open>The closed form of the weights\<close>

lemma penalty_of_nonneg: "0 \<le> penalty_of today r"
  by (simp add: penalty_of_def)

lemma novelty_penalty_of_record:
  "d_date r \<le> today \<Longrightarrow> novelty_penalty (real_of_int (today - d_date r)) = Inr (penalty_of today r)"
  by (simp add: novelty_penalty_value penalty_of_def)

lemma score_order_clamped:
  assumes "well_formed_record today r"
  shows "score_order today r
           \<lparr>nf_toppings = clamped 10 A, nf_tea_type = clamped 8 B, nf_ice_category = clamped 4 C\<rparr> =
         Inr \<lparr>nf_toppings = clamped 10 (\<lambda>j. A j + topping_penalties today [r] j),
              nf_tea_type = clamped 8 (\<lambda>j. B j + tea_penalties today [r] j),
              nf_ice_category = clamped 4 (\<lambda>j. C j + ice_penalties today [r] j)\<rparr>"
proof -
  let ?p = "penalty_of today r"
  have p: "novelty_penalty (real_of_int (today - d_date r)) = Inr ?p"
    using assms by (intro novelty_penalty_of_record) (simp add: well_formed_record_def)
  have tops: "penalize_all ?p (d_toppings r) (clamped 10 A) =
      Inr (clamped 10 (\<lambda>j. A j + topping_penalties today [r] j))"
    using assms penalize_all_clamped [OF penalty_of_nonneg, of 10 "d_toppings r" today r A]
    by (simp add: well_formed_record_def topping_penalties_def)
  have "(\<lambda>j. B j + (if int j = d_tea_type r then ?p else 0)) = (\<lambda>j. B j + tea_penalties today [r] j)"
    by (auto simp: tea_penalties_def)
  then have teas: "penalize ?p (clamped 8 B) (d_tea_type r) =
      Inr (clamped 8 (\<lambda>j. B j + tea_penalties today [r] j))"
    using assms penalize_clamped [OF penalty_of_nonneg, of "d_tea_type r" 8 today r B]
    by (simp add: well_formed_record_def)
  have "(\<lambda>j. C j + (if int j = d_ice_category r then ?p else 0)) =
      (\<lambda>j. C j + ice_penalties today [r] j)"
    by (auto simp: ice_penalties_def)
  then have ices: "penalize ?p (clamped 4 C) (d_ice_category r) =
      Inr (clamped 4 (\<lambda>j. C j + ice_penalties today [r] j))"
    using assms penalize_clamped [OF penalty_of_nonneg, of "d_ice_category r" 4 today r C]
    by (simp add: well_formed_record_def)
  show ?thesis
    unfolding score_order_def Let_def p and_then_Inr by (simp add: tops teas ices)
qed

lemma score_history_clamped:
  assumes "well_formed today h"
  shows "score_history today h
           \<lparr>nf_toppings = clamped 10 A, nf_tea_type = clamped 8 B, nf_ice_category = clamped 4 C\<rparr> =
         Inr \<lparr>nf_toppings = clamped 10 (\<lambda>j. A j + topping_penalties today h j),
              nf_tea_type = clamped 8 (\<lambda>j. B j + tea_penalties today h j),
              nf_ice_category = clamped 4 (\<lambda>j. C j + ice_penalties today h j)\<rparr>"
  using assms
proof (induction h arbitrary: A B C)
  case Nil
  then show ?case
    by (simp add: topping_penalties_def tea_penalties_def ice_penalties_def)
next
  case (Cons r h)
  then have r: "well_formed_record today r" and h: "well_formed today h"
    by (simp_all add: well_formed_def)
  have a: "(\<lambda>j. A j + topping_penalties today [r] j + topping_penalties today h j) =
      (\<lambda>j. A j + topping_penalties today (r # h) j)"
    by (auto simp: topping_penalties_def)
  have b: "(\<lambda>j. B j + tea_penalties today [r] j + tea_penalties today h j) =
      (\<lambda>j. B j + tea_penalties today (r # h) j)"
    by (auto simp: tea_penalties_def)
  have c: "(\<lambda>j. C j + ice_penalties today [r] j + ice_penalties today h j) =
      (\<lambda>j. C j + ice_penalties today (r # h) j)"
    by (auto simp: ice_penalties_def)
  show ?case
    by (simp add: score_order_clamped [OF r] Cons.IH [OF h] a b c)
qed

lemma initial_factors_clamped:
  "initial_factors =
     \<lparr>nf_toppings = clamped 10 (\<lambda>_. 0), nf_tea_type = clamped 8 (\<lambda>_. 0),
      nf_ice_category = clamped 4 (\<lambda>_. 0)\<rparr>"
proof -
  have "map (\<lambda>_. 1::real) xs = clamped (length xs) (\<lambda>_. 0)" for xs :: "string list"
    by (rule nth_equalityI) simp_all
  from this [of topping_list] this [of tea_types] this [of ice_categories]
  show ?thesis by (simp add: initial_factors_def)
qed

lemma compute_factors_closed_form:
  assumes "well_formed today h"
  shows "compute_factors today h =
         Inr \<lparr>nf_toppings = clamped 10 (topping_penalties today h),
              nf_tea_type = clamped 8 (tea_penalties today h),
              nf_ice_category = clamped 4 (ice_penalties today h)\<rparr>"
  using score_history_clamped [OF assms, of "\<lambda>_. 0" "\<lambda>_. 0" "\<lambda>_. 0"]
  by (simp add: compute_factors_def initial_factors_clamped)

text \<open>The weights read a history only through the multiset of its scored parts.\<close>

lemma sum_list_via_mset:
  fixes g :: "'b \<Rightarrow> real"
  shows "(\<Sum>x\<leftarrow>xs. g (k x)) = sum_mset (image_mset g (image_mset k (mset xs)))"
proof -
  have "(\<Sum>x\<leftarrow>xs. g (k x)) = sum_mset (mset (map (\<lambda>x. g (k x)) xs))"
    by (simp only: sum_mset_sum_list)
  also have "\<dots> = sum_mset (image_mset g (image_mset k (mset xs)))"
    by (simp add: multiset.map_comp comp_def)
  finally show ?thesis .
qed

lemma topping_penalties_scored:
  "topping_penalties today h j =
     (\<Sum>r\<leftarrow>h. (\<lambda>(ts, tea, ice, d). real (count_list ts (int j)) * max (1 - sqrt (5 * real_of_int d) / 5) 0)
        (scored_part today r))"
  by (simp only: topping_penalties_def scored_part_def penalty_of_def split_conv)

lemma tea_penalties_scored:
  "tea_penalties today h j =
     (\<Sum>r\<leftarrow>h. (\<lambda>(ts, tea, ice, d). if tea = int j then max (1 - sqrt (5 * real_of_int d) / 5) 0 else 0)
        (scored_part today r))"
  by (simp only: tea_penalties_def scored_part_def penalty_of_def sum_list_map_filter' split_conv)

lemma ice_penalties_scored:
  "ice_penalties today h j =
     (\<Sum>r\<leftarrow>h. (\<lambda>(ts, tea, ice, d). if ice = int j then max (1 - sqrt (5 * real_of_int d) / 5) 0 else 0)
        (scored_part today r))"
  by (simp only: ice_penalties_def scored_part_def penalty_of_def sum_list_map_filter' split_conv)

lemma well_formed_scored:
  "well_formed today h \<longleftrightarrow>
     (\<forall>x \<in> set_mset (image_mset (scored_part today) (mset h)).
        (\<lambda>(ts, tea, ice, d). 0 \<le> d \<and> list_all (\<lambda>t. 0 \<le> t \<and> t < 10) ts
            \<and> 0 \<le> tea \<and> tea < 8 \<and> 0 \<le> ice \<and> ice < 4) x)"
  by (auto simp: well_formed_def well_formed_record_def scored_part_def list_all_iff)

lemma scored_part_determines:
  assumes "image_mset (scored_part t1) (mset h1) = image_mset (scored_part t2) (mset h2)"
  shows "topping_penalties t1 h1 = topping_penalties t2 h2"
    and "tea_penalties t1 h1 = tea_penalties t2 h2"
    and "ice_penalties t1 h1 = ice_penalties t2 h2"
    and "well_formed t1 h1 \<longleftrightarrow> well_formed t2 h2"
proof -
  show "topping_penalties t1 h1 = topping_penalties t2 h2"
    unfolding topping_penalties_scored sum_list_via_mset assms by (rule refl)
  show "tea_penalties t1 h1 = tea_penalties t2 h2"
    unfolding tea_penalties_scored sum_list_via_mset assms by (rule refl)
  show "ice_penalties t1 h1 = ice_penalties t2 h2"
    unfolding ice_penalties_scored sum_list_via_mset assms by (rule refl)
  show "well_formed t1 h1 \<longleftrightarrow> well_formed t2 h2"
    unfolding well_formed_scored assms by (rule refl)
qed

lemma count_list_distinct:
  "distinct xs \<Longrightarrow> count_list xs x = (if x \<in> set xs then 1 else 0)"
  by (induction xs) auto

lemma topping_penalties_distinct:
  assumes "list_all (\<lambda>r. distinct (d_toppings r)) h"
  shows "topping_penalties today h j = referencing_penalties today h j"
  using assms
  by (induction h)
    (simp_all add: topping_penalties_def referencing_penalties_def count_list_distinct)

lemma sqrt5_bounds: "2 < sqrt 5" "sqrt 5 < 5 / 2"
proof -
  show "2 < sqrt 5" by (rule real_less_rsqrt) simp
  show "sqrt 5 < 5 / 2" by (rule real_less_lsqrt) (simp_all add: power2_eq_square)
qed

text \<open>
  The weights in general: each is \<open>max (1 - S) 0\<close>, where \<open>S\<close> adds the penalty of a
  record once for every reference the record makes to the value, so once per occurrence
  in the record's topping list.
\<close>

lemma weights_by_occurrence:
  assumes "well_formed today h"
  shows "compute_factors today h =
         Inr \<lparr>nf_toppings = clamped 10 (topping_penalties today h),
              nf_tea_type = clamped 8 (tea_penalties today h),
              nf_ice_category = clamped 4 (ice_penalties today h)\<rparr>"
    and "image_mset (scored_part today') (mset h') = image_mset (scored_part today) (mset h) \<Longrightarrow>
         compute_factors today' h' = compute_factors today h"
proof -
  show val: "compute_factors today h =
         Inr \<lparr>nf_toppings = clamped 10 (topping_penalties today h),
              nf_tea_type = clamped 8 (tea_penalties today h),
              nf_ice_category = clamped 4 (ice_penalties today h)\<rparr>"
    using assms by (rule compute_factors_closed_form)
  assume eq: "image_mset (scored_part today') (mset h') = image_mset (scored_part today) (mset h)"
  have "well_formed today' h'"
    using scored_part_determines(4) [OF eq] assms by simp
  then show "compute_factors today' h' = compute_factors today h"
    unfolding val by (simp add: compute_factors_closed_form scored_part_determines(1-3) [OF eq])
qed

text \<open>
  Claim C1, as amended. For a history whose records are not dated after today, store
  in-range indices and list no topping twice, the scorer returns weights, and the weight
  of a value is \<open>max (1 - S) 0\<close>, where \<open>S\<close> is the sum of the penalties of exactly the
  records that reference the value (an empty sum, and weight 1, when no record does).
  The weights are the same for any other history and date with the same multiset of
  scored parts (index fields and age in days), so they depend on neither the positions
  of the records nor the absolute dates.
\<close>

theorem weights_closed_form:
  assumes "well_formed today h" "list_all (\<lambda>r. distinct (d_toppings r)) h"
  shows "\<exists>nf. compute_factors today h = Inr nf
     \<and> length (nf_toppings nf) = 10 \<and> length (nf_tea_type nf) = 8
     \<and> length (nf_ice_category nf) = 4
     \<and> (\<forall>j<10. nf_toppings nf ! j = max (1 - referencing_penalties today h j) 0)
     \<and> (\<forall>j<8. nf_tea_type nf ! j = max (1 - tea_penalties today h j) 0)
     \<and> (\<forall>j<4. nf_ice_category nf ! j = max (1 - ice_penalties today h j) 0)
     \<and> (\<forall>today' h'.
          image_mset (scored_part today') (mset h') = image_mset (scored_part today) (mset h) \<longrightarrow>
          compute_factors today' h' = Inr nf)"
proof -
  let ?nf = "\<lparr>nf_toppings = clamped 10 (topping_penalties today h),
              nf_tea_type = clamped 8 (tea_penalties today h),
              nf_ice_category = clamped 4 (ice_penalties today h)\<rparr>"
  have val: "compute_factors today h = Inr ?nf"
    using assms(1) by (rule weights_by_occurrence(1))
  have perm: "compute_factors today' h' = Inr ?nf"
    if "image_mset (scored_part today') (mset h') = image_mset (scored_part today) (mset h)"
    for today' h'
    using weights_by_occurrence(2) [OF assms(1) that] val by simp
  have tops: "nf_toppings ?nf ! j = max (1 - referencing_penalties today h j) 0" if "j < 10" for j
    using that assms(2) by (simp add: topping_penalties_distinct)
  show ?thesis
    using val perm tops by (intro exI [of _ ?nf]) simp
qed

theorem weights_closed_form_witness:
  "well_formed 5
     [\<lparr>d_toppings = [0], d_tea_type = 1, d_sugar_percentage = 30, d_ice_category = 0, d_date = 5\<rparr>]
   \<and> (\<exists>nf. compute_factors 5
        [\<lparr>d_toppings = [0], d_tea_type = 1, d_sugar_percentage = 30, d_ice_category = 0,
          d_date = 5\<rparr>] = Inr nf
      \<and> nf_toppings nf ! 0 = 0 \<and> nf_toppings nf ! 1 = 1
      \<and> nf_tea_type nf ! 1 = 0 \<and> nf_tea_type nf ! 0 = 1)"
proof -
  let ?h = "[\<lparr>d_toppings = [0], d_tea_type = 1, d_sugar_percentage = 30, d_ice_category = 0,
      d_date = 5\<rparr>]"
  have wf: "well_formed 5 ?h"
    by (simp add: well_formed_def well_formed_record_def)
  have dist: "list_all (\<lambda>r. distinct (d_toppings r)) ?h"
    by simp
  from weights_closed_form [OF wf dist] obtain nf where nf: "compute_factors 5 ?h = Inr nf"
      "\<forall>j<10. nf_toppings nf ! j = max (1 - referencing_penalties 5 ?h j) 0"
      "\<forall>j<8. nf_tea_type nf ! j = max (1 - tea_penalties 5 ?h j) 0"
    by blast
  have "nf_toppings nf ! 0 = 0" "nf_toppings nf ! 1 = 1"
    using nf(2) by (simp_all add: referencing_penalties_def penalty_of_def)
  moreover have "nf_tea_type nf ! 1 = 0" "nf_tea_type nf ! 0 = 1"
    using nf(3) by (simp_all add: tea_penalties_def penalty_of_def)
  ultimately show ?thesis using wf nf(1) by blast
qed

text \<open>
  Claim C1, as stated, fails: a record one day old that lists topping 0 twice charges
  its penalty twice, the weight of topping 0 is 0, and the sum over the records that
  reference topping 0 would give \<open>sqrt 5 / 5\<close>.
\<close>

theorem repeated_topping_counts_twice:
  "well_formed 1
     [\<lparr>d_toppings = [0, 0], d_tea_type = 0, d_sugar_percentage = 0, d_ice_category = 0, d_date = 0\<rparr>]
   \<and> compute_factors 1
     [\<lparr>d_toppings = [0, 0], d_tea_type = 0, d_sugar_percentage = 0, d_ice_category = 0, d_date = 0\<rparr>]
     = Inr \<lparr>nf_toppings = [0, 1, 1, 1, 1, 1, 1, 1, 1, 1],
            nf_tea_type = [sqrt 5 / 5, 1, 1, 1, 1, 1, 1, 1],
            nf_ice_category = [sqrt 5 / 5, 1, 1, 1]\<rparr>
   \<and> max (1 - referencing_penalties 1
     [\<lparr>d_toppings = [0, 0], d_tea_type = 0, d_sugar_percentage = 0, d_ice_category = 0, d_date = 0\<rparr>]
     0) 0 = sqrt 5 / 5
   \<and> sqrt 5 / 5 \<noteq> (0::real)"
proof -
  let ?h = "[\<lparr>d_toppings = [0, 0], d_tea_type = 0, d_sugar_percentage = 0, d_ice_category = 0,
      d_date = 0\<rparr>]"
  have wf: "well_formed 1 ?h"
    by (simp add: well_formed_def well_formed_record_def)
  have p: "penalty_of 1 (hd ?h) = 1 - sqrt 5 / 5"
    using sqrt5_bounds by (simp add: penalty_of_def)
  have "compute_factors 1 ?h = Inr \<lparr>nf_toppings = [0, 1, 1, 1, 1, 1, 1, 1, 1, 1],
            nf_tea_type = [sqrt 5 / 5, 1, 1, 1, 1, 1, 1, 1],
            nf_ice_category = [sqrt 5 / 5, 1, 1, 1]\<rparr>"
    using sqrt5_bounds p
    by (simp add: compute_factors_def initial_factors_def score_order_def novelty_penalty_value
        penalize_def resolve_def topping_list_def tea_types_def ice_categories_def)
  moreover have "max (1 - referencing_penalties 1 ?h 0) 0 = sqrt 5 / 5"
    using sqrt5_bounds p by (simp add: referencing_penalties_def)
  moreover have "sqrt 5 / 5 \<noteq> (0::real)" by simp
  ultimately show ?thesis using wf by blast
qed

section \<open>The weights stay in the unit interval\<close>

lemma novelty_penalty_nonneg: "novelty_penalty d = Inr p \<Longrightarrow> 0 \<le> p"
  by (auto simp: novelty_penalty_def split: if_splits)

lemma unit_weights_update:
  assumes "unit_weights v" "0 \<le> x" "x \<le> 1"
  shows "unit_weights (v[j := x])"
proof -
  have "set (v[j := x]) \<subseteq> insert x (set v)"
    by (rule set_update_subset_insert)
  then show ?thesis
    using assms by (auto simp: unit_weights_def list_all_iff)
qed

lemma penalize_unit:
  assumes "penalize p v i = Inr v'" "0 \<le> p" "unit_weights v"
  shows "unit_weights v'"
proof -
  obtain j where j: "resolve (length v) i = Some j" and v': "v' = v[j := max (v ! j - p) 0]"
    using assms(1) by (auto simp: penalize_def split: option.splits)
  have "j < length v"
    using j by (auto simp: resolve_def split: if_splits)
  then have "v ! j \<le> 1"
    using assms(3) by (simp add: unit_weights_def list_all_length)
  then have "max (v ! j - p) 0 \<le> 1" "0 \<le> max (v ! j - p) 0"
    using assms(2) by simp_all
  then show ?thesis
    unfolding v' using assms(3) by (intro unit_weights_update)
qed

lemma penalize_all_unit:
  "penalize_all p ts v = Inr v' \<Longrightarrow> 0 \<le> p \<Longrightarrow> unit_weights v \<Longrightarrow> unit_weights v'"
proof (induction ts arbitrary: v)
  case Nil
  then show ?case by simp
next
  case (Cons t ts)
  then obtain u where u: "penalize p v t = Inr u" "penalize_all p ts u = Inr v'"
    by (auto simp: and_then_eq_Inr)
  have "unit_weights u"
    using penalize_unit [OF u(1)] Cons.prems by simp
  then show ?case
    using Cons.IH [OF u(2)] Cons.prems by simp
qed

lemma score_order_unit:
  assumes "score_order today r nf = Inr nf'" "unit_factors nf"
  shows "unit_factors nf'"
proof -
  obtain p tops teas ices where
    p: "novelty_penalty (real_of_int (today - d_date r)) = Inr p"
    and tops: "penalize_all p (d_toppings r) (nf_toppings nf) = Inr tops"
    and teas: "penalize p (nf_tea_type nf) (d_tea_type r) = Inr teas"
    and ices: "penalize p (nf_ice_category nf) (d_ice_category r) = Inr ices"
    and nf': "nf' = \<lparr>nf_toppings = tops, nf_tea_type = teas, nf_ice_category = ices\<rparr>"
    using assms(1) unfolding score_order_def Let_def and_then_eq_Inr by auto
  have "0 \<le> p" using p by (rule novelty_penalty_nonneg)
  then show ?thesis
    using penalize_all_unit [OF tops] penalize_unit [OF teas] penalize_unit [OF ices] assms(2)
    by (simp add: nf' unit_factors_def)
qed

lemma score_history_unit:
  "score_history today h nf = Inr nf' \<Longrightarrow> unit_factors nf \<Longrightarrow> unit_factors nf'"
proof (induction h arbitrary: nf)
  case Nil
  then show ?case by simp
next
  case (Cons r h)
  then obtain m where m: "score_order today r nf = Inr m" "score_history today h m = Inr nf'"
    by (auto simp: and_then_eq_Inr)
  have "unit_factors m"
    using score_order_unit [OF m(1)] Cons.prems by simp
  then show ?case
    using Cons.IH [OF m(2)] by simp
qed

lemma initial_factors_unit: "unit_factors initial_factors"
  by (simp add: unit_factors_def initial_factors_def unit_weights_def list_all_iff)

text \<open>
  Claim C3. Whenever the scorer returns weights, every entry of the three weight lists
  lies in \<open>[0, 1]\<close>; and it does return weights for every history whose records are not
  dated after today and store in-range indices. (A record dated after today makes the
  penalty raise TypeError, so no weights exist then.)
\<close>

theorem weights_in_unit_interval:
  "(\<forall>nf. compute_factors today h = Inr nf \<longrightarrow>
      (\<forall>w \<in> set (nf_toppings nf) \<union> set (nf_tea_type nf) \<union> set (nf_ice_category nf).
         0 \<le> w \<and> w \<le> 1))
   \<and> (well_formed today h \<longrightarrow> (\<exists>nf. compute_factors today h = Inr nf))"
proof -
  have "0 \<le> w \<and> w \<le> 1"
    if "compute_factors today h = Inr nf"
      "w \<in> set (nf_toppings nf) \<union> set (nf_tea_type nf) \<union> set (nf_ice_category nf)" for nf w
  proof -
    have "unit_factors nf"
      using that(1) score_history_unit [OF _ initial_factors_unit]
      by (simp add: compute_factors_def)
    then show ?thesis
      using that(2) by (auto simp: unit_factors_def unit_weights_def list_all_iff)
  qed
  moreover have "\<exists>nf. compute_factors today h = Inr nf" if "well_formed today h"
    using compute_factors_closed_form [OF that] by blast
  ultimately show ?thesis by blast
qed

theorem weights_in_unit_interval_witness:
  "well_formed 7
     [\<lparr>d_toppings = [2, 4], d_tea_type = 3, d_sugar_percentage = 55, d_ice_category = 1, d_date = 7\<rparr>]
   \<and> (\<exists>nf. compute_factors 7
        [\<lparr>d_toppings = [2, 4], d_tea_type = 3, d_sugar_percentage = 55, d_ice_category = 1,
          d_date = 7\<rparr>] = Inr nf
      \<and> nf_toppings nf \<noteq> [] \<and> 0 \<le> hd (nf_toppings nf) \<and> hd (nf_toppings nf) \<le> 1)"
proof -
  let ?h = "[\<lparr>d_toppings = [2, 4], d_tea_type = 3, d_sugar_percentage = 55, d_ice_category = 1,
      d_date = 7\<rparr>]"
  have wf: "well_formed 7 ?h"
    by (simp add: well_formed_def well_formed_record_def)
  note main = weights_in_unit_interval [of 7 ?h]
  from main wf obtain nf where nf: "compute_factors 7 ?h = Inr nf"
    by blast
  have len: "nf_toppings nf \<noteq> []"
    using nf compute_factors_closed_form [OF wf] by (auto simp: clamped_def)
  then have "hd (nf_toppings nf) \<in> set (nf_toppings nf)" by simp
  then have "0 \<le> hd (nf_toppings nf) \<and> hd (nf_toppings nf) \<le> 1"
    using main nf by blast
  then show ?thesis using wf nf len by blast
qed

section \<open>Weighted and uniform choice\<close>

lemma length_accumulate_from [simp]: "length (accumulate_from s ws) = length ws"
  by (induction ws arbitrary: s) simp_all

lemma nth_accumulate_from:
  "i < length ws \<Longrightarrow> accumulate_from s ws ! i = s + sum_list (take (Suc i) ws)"
proof (induction ws arbitrary: s i)
  case Nil
  then show ?case by simp
next
  case (Cons w ws)
  show ?case
  proof (cases i)
    case 0
    then show ?thesis by simp
  next
    case (Suc j)
    then have "j < length ws" using Cons.prems by simp
    from Cons.IH [OF this, of "s + w"] show ?thesis
      using Suc by (simp add: add.assoc)
  qed
qed

lemma length_accumulate [simp]: "length (accumulate ws) = length ws"
  by (simp add: accumulate_def)

lemma nth_accumulate: "i < length ws \<Longrightarrow> accumulate ws ! i = sum_list (take (Suc i) ws)"
  by (simp add: accumulate_def nth_accumulate_from)

lemma last_accumulate: "ws \<noteq> [] \<Longrightarrow> last (accumulate ws) = sum_list ws"
proof -
  assume ne: "ws \<noteq> []"
  then have "accumulate ws \<noteq> []" by (metis length_accumulate length_0_conv)
  then have "last (accumulate ws) = accumulate ws ! (length ws - 1)"
    by (simp add: last_conv_nth)
  also have "\<dots> = sum_list (take (Suc (length ws - 1)) ws)"
    using ne by (intro nth_accumulate) simp
  also have "\<dots> = sum_list ws" using ne by simp
  finally show ?thesis .
qed

text \<open>Partial sums of non-negative weights grow with the number of summands.\<close>

lemma sum_list_take_mono:
  fixes ws :: "real list"
  assumes "\<forall>w \<in> set ws. 0 \<le> w" "i \<le> j"
  shows "sum_list (take i ws) \<le> sum_list (take j ws)"
proof -
  have "take j ws = take i ws @ take (j - i) (drop i ws)"
    using assms(2) by (metis le_add_diff_inverse take_add)
  moreover have "0 \<le> sum_list (take (j - i) (drop i ws))"
    using assms(1) by (intro sum_list_nonneg) (auto dest!: in_set_takeD in_set_dropD)
  ultimately show ?thesis by simp
qed

lemma bisect_result:
  assumes "lo \<le> hi" "\<forall>i<lo. a ! i \<le> x" "x < a ! hi"
    "\<forall>i j. i \<le> j \<and> j \<le> hi \<longrightarrow> a ! i \<le> a ! j"
  shows "lo \<le> bisect a x lo hi \<and> bisect a x lo hi \<le> hi
           \<and> (\<forall>i<bisect a x lo hi. a ! i \<le> x) \<and> x < a ! bisect a x lo hi"
  using assms
proof (induction a x lo hi rule: bisect.induct)
  case (1 a x lo hi)
  show ?case
  proof (cases "lo < hi")
    case False
    then have "bisect a x lo hi = lo" by (subst bisect.simps) simp
    moreover have "lo = hi" using False "1.prems"(1) by simp
    ultimately show ?thesis using "1.prems" by simp
  next
    case True
    let ?mid = "(lo + hi) div 2"
    have mid: "lo \<le> ?mid" "?mid < hi" using True by simp_all
    show ?thesis
    proof (cases "x < a ! ?mid")
      case below: True
      have mono: "\<forall>i j. i \<le> j \<and> j \<le> ?mid \<longrightarrow> a ! i \<le> a ! j"
        using "1.prems"(4) mid(2) by auto
      from "1.IH"(1) [OF True refl below mid(1) "1.prems"(2) below mono]
      have "lo \<le> bisect a x lo ?mid \<and> bisect a x lo ?mid \<le> ?mid
           \<and> (\<forall>i<bisect a x lo ?mid. a ! i \<le> x) \<and> x < a ! bisect a x lo ?mid" .
      moreover have "bisect a x lo hi = bisect a x lo ?mid"
        using True below by (subst bisect.simps) (simp add: Let_def)
      ultimately show ?thesis using mid(2) by auto
    next
      case above: False
      have le: "?mid + 1 \<le> hi" using mid(2) by simp
      have low: "\<forall>i<?mid + 1. a ! i \<le> x"
      proof (intro allI impI)
        fix i assume "i < ?mid + 1"
        then have "i \<le> ?mid" "?mid \<le> hi" using mid(2) by simp_all
        then have "a ! i \<le> a ! ?mid" using "1.prems"(4) by blast
        then show "a ! i \<le> x" using above by simp
      qed
      from "1.IH"(2) [OF True refl above le low "1.prems"(3) "1.prems"(4)]
      have "?mid + 1 \<le> bisect a x (?mid + 1) hi \<and> bisect a x (?mid + 1) hi \<le> hi
           \<and> (\<forall>i<bisect a x (?mid + 1) hi. a ! i \<le> x) \<and> x < a ! bisect a x (?mid + 1) hi" .
      moreover have "bisect a x lo hi = bisect a x (?mid + 1) hi"
        using True above by (subst bisect.simps) (simp add: Let_def)
      ultimately show ?thesis using mid(1) by auto
    qed
  qed
qed

lemma range_item_in_range: "j < n \<Longrightarrow> range_item n (int j) = Inr (int j)"
  by (simp add: range_item_def resolve_in_range)

lemma map_raising_upt:
  "(\<And>i. i < k \<Longrightarrow> f i = Inr (g i)) \<Longrightarrow> map_raising f [0..<k] = Inr (map g [0..<k])"
  by (rule map_raising_total) simp

text \<open>
  The binary search over the running sums of non-negative weights, for a target below
  the total: the index \<open>j\<close> whose interval of partial sums contains the target.
\<close>

lemma bisect_accumulate:
  assumes nonneg: "\<forall>w \<in> set ws. 0 \<le> w" and x: "0 \<le> x" "x < sum_list ws"
  shows "bisect (accumulate ws) x 0 (length ws - 1) < length ws"
    and "sum_list (take (bisect (accumulate ws) x 0 (length ws - 1)) ws) \<le> x"
    and "x < sum_list (take (Suc (bisect (accumulate ws) x 0 (length ws - 1))) ws)"
proof -
  let ?a = "accumulate ws" and ?n = "length ws"
  let ?r = "bisect ?a x 0 (?n - 1)"
  have ne: "ws \<noteq> []" using x by auto
  then have n: "0 < ?n" by simp
  have top: "x < ?a ! (?n - 1)"
    using x(2) n by (simp add: nth_accumulate)
  have mono: "\<forall>i j. i \<le> j \<and> j \<le> ?n - 1 \<longrightarrow> ?a ! i \<le> ?a ! j"
  proof (intro allI impI)
    fix i j assume ij: "i \<le> j \<and> j \<le> ?n - 1"
    then have "i < ?n" "j < ?n" using n by linarith+
    then show "?a ! i \<le> ?a ! j"
      using ij sum_list_take_mono [OF nonneg, of "Suc i" "Suc j"] by (simp add: nth_accumulate)
  qed
  have res: "0 \<le> ?r \<and> ?r \<le> ?n - 1 \<and> (\<forall>i<?r. ?a ! i \<le> x) \<and> x < ?a ! ?r"
    by (rule bisect_result) (use top mono in simp_all)
  then have "?r \<le> ?n - 1" by blast
  then show lt: "?r < ?n" using n by linarith
  show "x < sum_list (take (Suc ?r) ws)"
    using res lt by (simp add: nth_accumulate)
  show "sum_list (take ?r ws) \<le> x"
  proof (cases ?r)
    case 0
    then show ?thesis using x(1) by simp
  next
    case (Suc q)
    then have "q < ?r" "q < ?n" using lt by simp_all
    then have "?a ! q \<le> x" using res by blast
    then show ?thesis using Suc \<open>q < ?n\<close> by (simp add: nth_accumulate)
  qed
qed

lemma partial_sum_interval_unique:
  fixes ws :: "real list"
  assumes nonneg: "\<forall>w \<in> set ws. 0 \<le> w"
    and i: "sum_list (take i ws) \<le> x" "x < sum_list (take (Suc i) ws)"
    and j: "sum_list (take j ws) \<le> x" "x < sum_list (take (Suc j) ws)"
  shows "i = j"
proof (rule ccontr)
  assume "i \<noteq> j"
  then consider "Suc i \<le> j" | "Suc j \<le> i" by linarith
  then show False
  proof cases
    case 1
    from sum_list_take_mono [OF nonneg this] i(2) j(1) show False by simp
  next
    case 2
    from sum_list_take_mono [OF nonneg this] j(2) i(1) show False by simp
  qed
qed

lemma bisect_accumulate_iff:
  assumes nonneg: "\<forall>w \<in> set ws. 0 \<le> w" and x: "0 \<le> x" "x < sum_list ws"
  shows "bisect (accumulate ws) x 0 (length ws - 1) = j \<longleftrightarrow>
           sum_list (take j ws) \<le> x \<and> x < sum_list (take (Suc j) ws)"
  using bisect_accumulate(2,3) [OF assms] partial_sum_interval_unique [OF nonneg]
  by blast

lemma positive_weight_selected:
  assumes nonneg: "\<forall>w \<in> set ws. 0 \<le> w" and x: "0 \<le> x" "x < sum_list ws"
  shows "0 < ws ! bisect (accumulate ws) x 0 (length ws - 1)"
proof -
  let ?r = "bisect (accumulate ws) x 0 (length ws - 1)"
  have "?r < length ws" using assms by (rule bisect_accumulate(1))
  then have "sum_list (take (Suc ?r) ws) = sum_list (take ?r ws) + ws ! ?r"
    by (simp add: take_Suc_conv_app_nth)
  then show ?thesis
    using bisect_accumulate(2,3) [OF assms] by simp
qed

lemma floor_scaled_iff:
  assumes "0 \<le> u" "0 < n"
  shows "\<lfloor>u * real n\<rfloor> = int j \<longleftrightarrow> real j / real n \<le> u \<and> u < real (Suc j) / real n"
proof -
  have "\<lfloor>u * real n\<rfloor> = int j \<longleftrightarrow> real j \<le> u * real n \<and> u * real n < real j + 1"
    by (simp add: floor_eq_iff)
  also have "\<dots> \<longleftrightarrow> real j / real n \<le> u \<and> u < real (Suc j) / real n"
    using assms(2) by (simp add: pos_divide_le_eq pos_less_divide_eq add.commute)
  finally show ?thesis .
qed

lemma floor_fraction:
  assumes "unit_draw u" "0 < n"
  shows "0 \<le> \<lfloor>u * real n\<rfloor>" "\<lfloor>u * real n\<rfloor> < int n"
proof -
  have u: "0 \<le> u" "u < 1" using assms(1) by (simp_all add: unit_draw_def)
  then have "0 \<le> u * real n" by simp
  then show "0 \<le> \<lfloor>u * real n\<rfloor>" by simp
  have "u * real n < real n" using u assms(2) by simp
  then show "\<lfloor>u * real n\<rfloor> < int n" by (simp add: floor_less_iff)
qed

lemma range_item_floor:
  assumes "unit_draw u" "0 < n"
  shows "range_item n \<lfloor>u * real n\<rfloor> = Inr \<lfloor>u * real n\<rfloor>"
  using floor_fraction [OF assms] by (simp add: range_item_def resolve_in_range)

lemma draw_from_uniform:
  assumes "v \<noteq> []" "sum_list v = 0" "\<forall>i<k. unit_draw (draw i)"
  shows "draw_from v k draw = Inr (map (\<lambda>i. \<lfloor>draw i * real (length v)\<rfloor>) [0..<k])"
proof -
  have "map_raising (\<lambda>i. range_item (length v) \<lfloor>draw i * real (length v)\<rfloor>) [0..<k] =
      Inr (map (\<lambda>i. \<lfloor>draw i * real (length v)\<rfloor>) [0..<k])"
    using assms(1,3) by (intro map_raising_upt range_item_floor) simp_all
  then show ?thesis
    using assms(2) by (simp add: draw_from_def choices_def)
qed

lemma scaled_draw:
  assumes "unit_draw u" "0 < (t::real)"
  shows "0 \<le> u * t" "u * t < t"
  using assms by (simp_all add: unit_draw_def)

lemma draw_from_weighted:
  assumes "\<forall>w \<in> set v. 0 \<le> w" "0 < sum_list v" "\<forall>i<k. unit_draw (draw i)"
  shows "draw_from v k draw =
     Inr (map (\<lambda>i. int (bisect (accumulate v) (draw i * sum_list v) 0 (length v - 1))) [0..<k])"
proof -
  have ne: "v \<noteq> []" using assms(2) by auto
  have "map_raising
      (\<lambda>i. range_item (length v) (int (bisect (accumulate v) (draw i * sum_list v) 0 (length v - 1))))
      [0..<k] =
      Inr (map (\<lambda>i. int (bisect (accumulate v) (draw i * sum_list v) 0 (length v - 1))) [0..<k])"
  proof (rule map_raising_upt)
    fix i assume "i < k"
    then have "unit_draw (draw i)" using assms(3) by simp
    from scaled_draw [OF this assms(2)]
    have "bisect (accumulate v) (draw i * sum_list v) 0 (length v - 1) < length v"
      by (intro bisect_accumulate(1) assms(1))
    then show "range_item (length v)
        (int (bisect (accumulate v) (draw i * sum_list v) 0 (length v - 1))) =
        Inr (int (bisect (accumulate v) (draw i * sum_list v) 0 (length v - 1)))"
      by (rule range_item_in_range)
  qed
  moreover have "accumulate v \<noteq> []"
    using ne by (metis length_accumulate length_0_conv)
  ultimately show ?thesis
    using assms(2) ne by (simp add: draw_from_def choices_def last_accumulate Let_def)
qed

text \<open>
  The selector's rule on any non-empty weight list with non-negative entries and draws
  \<open>u\<close> in \<open>[0, 1)\<close>: one in-range index per draw. When the weights sum to 0, a draw
  selects \<open>j\<close> exactly when it falls in \<open>[j / n, (j + 1) / n)\<close>, an interval of length
  \<open>1 / n\<close>. When the sum is positive, a draw selects \<open>j\<close> exactly when it falls between
  the partial sums before and after \<open>v ! j\<close>, divided by the total: an interval of length
  \<open>v ! j / sum_list v\<close>; so the selected weight is positive.
\<close>

lemma draw_from_distribution:
  assumes "v \<noteq> []" "\<forall>w \<in> set v. 0 \<le> w" "\<forall>i<k. unit_draw (draw i)"
  shows "\<exists>picks. draw_from v k draw = Inr picks \<and> length picks = k
     \<and> (\<forall>i<k. 0 \<le> picks ! i \<and> picks ! i < int (length v))
     \<and> (sum_list v = 0 \<longrightarrow>
          (\<forall>i<k. \<forall>j<length v.
             (picks ! i = int j) =
             (real j / real (length v) \<le> draw i \<and> draw i < real (Suc j) / real (length v))))
     \<and> (0 < sum_list v \<longrightarrow>
          (\<forall>i<k. \<forall>j<length v.
             (picks ! i = int j) =
             (sum_list (take j v) / sum_list v \<le> draw i
              \<and> draw i < sum_list (take (Suc j) v) / sum_list v))
          \<and> (\<forall>i<k. 0 < v ! nat (picks ! i)))"
proof (cases "sum_list v = 0")
  case True
  let ?picks = "map (\<lambda>i. \<lfloor>draw i * real (length v)\<rfloor>) [0..<k]"
  have n: "0 < length v" using assms(1) by simp
  have val: "draw_from v k draw = Inr ?picks"
    using assms(1) True assms(3) by (rule draw_from_uniform)
  have range: "0 \<le> ?picks ! i \<and> ?picks ! i < int (length v)" if "i < k" for i
    using that floor_fraction [OF _ n, of "draw i"] assms(3) by simp
  have iff: "(?picks ! i = int j) =
      (real j / real (length v) \<le> draw i \<and> draw i < real (Suc j) / real (length v))"
    if "i < k" for i j
  proof -
    have "0 \<le> draw i" using assms(3) that by (simp add: unit_draw_def)
    from floor_scaled_iff [OF this n, of j] show ?thesis using that by simp
  qed
  show ?thesis
    using val range iff True by (intro exI [of _ ?picks]) simp
next
  case False
  let ?pick = "\<lambda>i. bisect (accumulate v) (draw i * sum_list v) 0 (length v - 1)"
  let ?picks = "map (\<lambda>i. int (?pick i)) [0..<k]"
  have "0 \<le> sum_list v" using assms(2) by (intro sum_list_nonneg) simp
  then have pos: "0 < sum_list v" using False by simp
  have val: "draw_from v k draw = Inr ?picks"
    using assms(2) pos assms(3) by (rule draw_from_weighted)
  have x: "0 \<le> draw i * sum_list v" "draw i * sum_list v < sum_list v" if "i < k" for i
    using scaled_draw [OF _ pos, of "draw i"] assms(3) that by simp_all
  have range: "0 \<le> ?picks ! i \<and> ?picks ! i < int (length v)" if "i < k" for i
    using that bisect_accumulate(1) [OF assms(2) x [OF that]] by simp
  have iff: "(?picks ! i = int j) =
      (sum_list (take j v) / sum_list v \<le> draw i
       \<and> draw i < sum_list (take (Suc j) v) / sum_list v)"
    if "i < k" for i j
    using that bisect_accumulate_iff [OF assms(2) x [OF that], of j] pos
    by (simp add: pos_divide_le_eq pos_less_divide_eq)
  have sel: "0 < v ! nat (?picks ! i)" if "i < k" for i
    using that positive_weight_selected [OF assms(2) x [OF that]] by simp
  show ?thesis
    using val range iff sel pos by (intro exI [of _ ?picks]) simp
qed

section \<open>Generating an order: the two branches\<close>

lemma topping_count_valid:
  "count_draw d < 3 \<Longrightarrow> topping_count d = Inr (int (Suc (count_draw d)))"
proof -
  assume "count_draw d < 3"
  then consider "count_draw d = 0" | "count_draw d = 1" | "count_draw d = 2" by linarith
  then show ?thesis
    by cases (simp_all add: topping_count_def getitem_def resolve_def)
qed

lemma valid_draws_toppings:
  "valid_draws d \<Longrightarrow> i < Suc (count_draw d) \<Longrightarrow> unit_draw (topping_draws d i)"
  by (simp add: valid_draws_def list_all_iff)

lemma index_of_domain:
  assumes "distinct xs" "0 \<le> t" "t < int (length xs)"
  shows "index_of xs (xs ! nat t) = Inr t"
  using index_of_nth [OF assms(1), of "nat t"] assms(2,3) by simp

lemma map_index_of_domain:
  assumes "distinct xs" "\<forall>t \<in> set ts. 0 \<le> t \<and> t < int (length xs)"
  shows "map_raising (index_of xs) (map (\<lambda>t. xs ! nat t) ts) = Inr ts"
  using assms(2)
proof (induction ts)
  case Nil
  then show ?case by simp
next
  case (Cons t ts)
  then show ?case
    using index_of_domain [OF assms(1), of t] by simp
qed

text \<open>\<open>to_dict\<close> of an order whose values are read from in-range indices returns those indices.\<close>

lemma to_dict_of_indices:
  assumes "\<forall>t \<in> set ts. 0 \<le> t \<and> t < 10" "0 \<le> tea" "tea < 8" "0 \<le> ice" "ice < 4"
  shows "to_dict \<lparr>toppings = map (\<lambda>t. topping_list ! nat t) ts, tea_type = tea_types ! nat tea,
            sugar_percentage = sugar, ice_category = ice_categories ! nat ice\<rparr> =
         Inr \<lparr>d_toppings = ts, d_tea_type = tea, d_sugar_percentage = sugar, d_ice_category = ice\<rparr>"
  using map_index_of_domain [OF distinct_topping_list, of ts]
    index_of_domain [OF distinct_tea_types, of tea]
    index_of_domain [OF distinct_ice_categories, of ice] assms
  by (simp add: to_dict_def)

lemma Order_init_in_range:
  assumes "\<forall>t \<in> set ts. 0 \<le> t \<and> t < 10" "0 \<le> tea" "tea < 8" "0 \<le> ice" "ice < 4"
  shows "Order_init (Indices ts tea sugar ice) =
     Inr \<lparr>toppings = map (\<lambda>t. topping_list ! nat t) ts, tea_type = tea_types ! nat tea,
          sugar_percentage = sugar mod 100, ice_category = ice_categories ! nat ice\<rparr>"
proof -
  have "map (\<lambda>t. topping_list ! nat (t mod 10)) ts = map (\<lambda>t. topping_list ! nat t) ts"
    using assms(1) by (intro map_cong) simp_all
  then show ?thesis
    using assms(2-5) by (simp add: Order_init_Indices del: Order_init.simps)
qed

lemma sugar_draw_range:
  assumes "unit_draw u"
  shows "py_int (u * 100) = \<lfloor>u * 100\<rfloor>" "0 \<le> \<lfloor>u * 100\<rfloor>" "\<lfloor>u * 100\<rfloor> < 100"
proof -
  have u: "0 \<le> u" "u < 1" using assms by (simp_all add: unit_draw_def)
  then show "py_int (u * 100) = \<lfloor>u * 100\<rfloor>" by (simp add: py_int_def)
  show "0 \<le> \<lfloor>u * 100\<rfloor>" using u by simp
  show "\<lfloor>u * 100\<rfloor> < 100" using u by (simp add: floor_less_iff)
qed

text \<open>The first order: what \<open>generate_first\<close> and the constructor make of the draws.\<close>

lemma generate_first_valid:
  assumes "valid_draws d" "k = Suc (count_draw d)"
  shows "generate_first d =
     Inr (Uniform (map (\<lambda>i. real_of_int \<lfloor>topping_draws d i * 10\<rfloor> / 10) [0..<k])
            (tea_draw d) (sugar_draw d) (ice_draw d))"
proof -
  have k: "topping_count d = Inr (int k)"
    unfolding assms(2) using assms(1) by (intro topping_count_valid) (simp add: valid_draws_def)
  have "map_raising (\<lambda>i. range_item 10 \<lfloor>topping_draws d i * real 10\<rfloor>) [0..<k] =
      Inr (map (\<lambda>i. \<lfloor>topping_draws d i * real 10\<rfloor>) [0..<k])"
    using valid_draws_toppings [OF assms(1)] assms(2)
    by (intro map_raising_upt range_item_floor) simp_all
  then have "choices 10 None k (topping_draws d) =
      Inr (map (\<lambda>i. \<lfloor>topping_draws d i * 10\<rfloor>) [0..<k])"
    by (simp add: choices_def)
  then show ?thesis
    by (simp add: generate_first_def k comp_def)
qed

lemma tenth_fraction:
  assumes "unit_draw u"
  shows "0 \<le> real_of_int \<lfloor>u * 10\<rfloor> / 10" "real_of_int \<lfloor>u * 10\<rfloor> / 10 < 1"
    "py_int (real_of_int \<lfloor>u * 10\<rfloor> / 10 * 10) = \<lfloor>u * 10\<rfloor>"
    "0 \<le> \<lfloor>u * 10\<rfloor>" "\<lfloor>u * 10\<rfloor> < 10"
proof -
  from floor_fraction [OF assms, of 10]
  show f: "0 \<le> \<lfloor>u * 10\<rfloor>" "\<lfloor>u * 10\<rfloor> < 10" by simp_all
  then show "0 \<le> real_of_int \<lfloor>u * 10\<rfloor> / 10" "real_of_int \<lfloor>u * 10\<rfloor> / 10 < 1"
    by simp_all
  show "py_int (real_of_int \<lfloor>u * 10\<rfloor> / 10 * 10) = \<lfloor>u * 10\<rfloor>"
    using f by (simp add: py_int_def)
qed

lemma unit_floor:
  assumes "unit_draw u" "0 < n"
  shows "py_int (u * real n) = \<lfloor>u * real n\<rfloor>"
  using assms by (simp add: py_int_def unit_draw_def)

lemma first_order_value:
  assumes "valid_draws d" "k = Suc (count_draw d)"
  shows "and_then (generate_first d) Order_init =
     Inr \<lparr>toppings = map (\<lambda>i. topping_list ! nat \<lfloor>topping_draws d i * 10\<rfloor>) [0..<k],
          tea_type = tea_types ! nat \<lfloor>tea_draw d * 8\<rfloor>,
          sugar_percentage = \<lfloor>sugar_draw d * 100\<rfloor>,
          ice_category = ice_categories ! nat \<lfloor>ice_draw d * 4\<rfloor>\<rparr>"
proof -
  let ?ts = "map (\<lambda>i. real_of_int \<lfloor>topping_draws d i * 10\<rfloor> / 10) [0..<k]"
  have tea: "unit_draw (tea_draw d)" and ice: "unit_draw (ice_draw d)"
    and sugar: "unit_draw (sugar_draw d)"
    using assms(1) by (simp_all add: valid_draws_def)
  have fr: "\<forall>t \<in> set ?ts. 0 \<le> t \<and> t < 1"
    using valid_draws_toppings [OF assms(1)] assms(2) tenth_fraction(1,2) by auto
  have "Order_init (Uniform ?ts (tea_draw d) (sugar_draw d) (ice_draw d)) =
     Inr \<lparr>toppings = map (\<lambda>t. topping_list ! nat (py_int (t * 10))) ?ts,
          tea_type = tea_types ! nat (py_int (tea_draw d * 8)),
          sugar_percentage = py_int (sugar_draw d * 100),
          ice_category = ice_categories ! nat (py_int (ice_draw d * 4))\<rparr>"
    using fr tea ice by (intro Order_init_Uniform) (simp_all add: unit_draw_def)
  moreover have "map (\<lambda>t. topping_list ! nat (py_int (t * 10))) ?ts =
      map (\<lambda>i. topping_list ! nat \<lfloor>topping_draws d i * 10\<rfloor>) [0..<k]"
    using valid_draws_toppings [OF assms(1)] assms(2) tenth_fraction(3) by (simp add: comp_def)
  moreover have "py_int (tea_draw d * 8) = \<lfloor>tea_draw d * 8\<rfloor>"
    using unit_floor [OF tea, of 8] by simp
  moreover have "py_int (ice_draw d * 4) = \<lfloor>ice_draw d * 4\<rfloor>"
    using unit_floor [OF ice, of 4] by simp
  moreover note sugar_draw_range(1) [OF sugar]
  ultimately show ?thesis
    by (simp add: generate_first_valid [OF assms] del: Order_init.simps)
qed

lemma new_order_first:
  assumes "valid_draws d" "k = Suc (count_draw d)"
  shows "new_order today [] d =
     Inr (\<lparr>toppings = map (\<lambda>i. topping_list ! nat \<lfloor>topping_draws d i * 10\<rfloor>) [0..<k],
           tea_type = tea_types ! nat \<lfloor>tea_draw d * 8\<rfloor>,
           sugar_percentage = \<lfloor>sugar_draw d * 100\<rfloor>,
           ice_category = ice_categories ! nat \<lfloor>ice_draw d * 4\<rfloor>\<rparr>,
          [\<lparr>d_toppings = map (\<lambda>i. \<lfloor>topping_draws d i * 10\<rfloor>) [0..<k],
            d_tea_type = \<lfloor>tea_draw d * 8\<rfloor>,
            d_sugar_percentage = \<lfloor>sugar_draw d * 100\<rfloor>,
            d_ice_category = \<lfloor>ice_draw d * 4\<rfloor>,
            d_date = today\<rparr>])"
proof -
  let ?ts = "map (\<lambda>i. \<lfloor>topping_draws d i * 10\<rfloor>) [0..<k]"
  have tea: "unit_draw (tea_draw d)" and ice: "unit_draw (ice_draw d)"
    using assms(1) by (simp_all add: valid_draws_def)
  have ts: "\<forall>t \<in> set ?ts. 0 \<le> t \<and> t < 10"
    using valid_draws_toppings [OF assms(1)] assms(2) tenth_fraction(4,5) by auto
  have dict: "to_dict \<lparr>toppings = map (\<lambda>t. topping_list ! nat t) ?ts,
            tea_type = tea_types ! nat \<lfloor>tea_draw d * 8\<rfloor>,
            sugar_percentage = \<lfloor>sugar_draw d * 100\<rfloor>,
            ice_category = ice_categories ! nat \<lfloor>ice_draw d * 4\<rfloor>\<rparr> =
         Inr \<lparr>d_toppings = ?ts, d_tea_type = \<lfloor>tea_draw d * 8\<rfloor>,
              d_sugar_percentage = \<lfloor>sugar_draw d * 100\<rfloor>,
              d_ice_category = \<lfloor>ice_draw d * 4\<rfloor>\<rparr>"
    using ts floor_fraction [OF tea, of 8] floor_fraction [OF ice, of 4]
    by (intro to_dict_of_indices) simp_all
  have "new_order today [] d =
      and_then (and_then (generate_first d) Order_init)
        (\<lambda>this_order. and_then (to_dict this_order)
           (\<lambda>this_order_dict. Inr (this_order, [with_date this_order_dict today])))"
    by (cases "generate_first d") (simp_all add: new_order_def)
  then show ?thesis
    using dict by (simp add: first_order_value [OF assms] comp_def with_date_def)
qed

lemma clamped_nonneg: "\<forall>w \<in> set (clamped n S). 0 \<le> w"
  by (auto simp: clamped_def)

lemma clamped_nonempty: "0 < n \<Longrightarrow> clamped n S \<noteq> []"
  by (simp add: clamped_def)

text \<open>Every draw from a domain returns, with in-range indices.\<close>

lemma draw_from_total:
  assumes "v \<noteq> []" "\<forall>w \<in> set v. 0 \<le> w" "\<forall>i<k. unit_draw (draw i)"
  shows "\<exists>picks. draw_from v k draw = Inr picks \<and> length picks = k
           \<and> (\<forall>t \<in> set picks. 0 \<le> t \<and> t < int (length v))"
proof (cases "sum_list v = 0")
  case True
  have n: "0 < length v" using assms(1) by simp
  have "\<forall>t \<in> set (map (\<lambda>i. \<lfloor>draw i * real (length v)\<rfloor>) [0..<k]). 0 \<le> t \<and> t < int (length v)"
    using floor_fraction [OF _ n] assms(3) by simp
  then show ?thesis
    using draw_from_uniform [OF assms(1) True assms(3)] by simp
next
  case False
  have "0 \<le> sum_list v" using assms(2) by (intro sum_list_nonneg) simp
  then have pos: "0 < sum_list v" using False by simp
  have "bisect (accumulate v) (draw i * sum_list v) 0 (length v - 1) < length v" if "i < k" for i
    using scaled_draw [OF _ pos, of "draw i"] assms(3) that
    by (intro bisect_accumulate(1) assms(2)) simp_all
  then have "\<forall>t \<in> set (map (\<lambda>i. int (bisect (accumulate v) (draw i * sum_list v) 0 (length v - 1)))
      [0..<k]). 0 \<le> t \<and> t < int (length v)"
    by simp
  then show ?thesis
    using draw_from_weighted [OF assms(2) pos assms(3)] by simp
qed

text \<open>One draw from a domain, as \<open>random.choices(..., k=1)[0]\<close>.\<close>

lemma single_draw:
  assumes "v \<noteq> []" "\<forall>w \<in> set v. 0 \<le> w" "unit_draw u"
  shows "\<exists>x. draw_from v 1 (\<lambda>_. u) = Inr [x] \<and> 0 \<le> x \<and> x < int (length v)"
proof -
  have "\<forall>i<1. unit_draw ((\<lambda>_. u) i)" using assms(3) by simp
  from draw_from_total [OF assms(1,2) this]
  obtain picks where picks: "draw_from v 1 (\<lambda>_. u) = Inr picks" "length picks = 1"
      "\<forall>t \<in> set picks. 0 \<le> t \<and> t < int (length v)"
    by blast
  then obtain x where x: "picks = [x]"
    by (cases picks) simp_all
  then show ?thesis
    using picks(1,3) by simp
qed

lemma getitem_single: "getitem [x] 0 = Inr x"
  by (simp add: getitem_def resolve_def)

lemma new_order_weighted:
  assumes "h \<noteq> []" "well_formed today h" "valid_draws d" "k = Suc (count_draw d)"
  shows "\<exists>ts tea ice. length ts = k \<and> (\<forall>t \<in> set ts. 0 \<le> t \<and> t < 10)
     \<and> 0 \<le> tea \<and> tea < 8 \<and> 0 \<le> ice \<and> ice < 4
     \<and> draw_from (clamped 10 (topping_penalties today h)) k (topping_draws d) = Inr ts
     \<and> draw_from (clamped 8 (tea_penalties today h)) 1 (\<lambda>_. tea_draw d) = Inr [tea]
     \<and> draw_from (clamped 4 (ice_penalties today h)) 1 (\<lambda>_. ice_draw d) = Inr [ice]
     \<and> new_order today h d =
       Inr (\<lparr>toppings = map (\<lambda>t. topping_list ! nat t) (remdups ts),
             tea_type = tea_types ! nat tea,
             sugar_percentage = \<lfloor>sugar_draw d * 100\<rfloor>,
             ice_category = ice_categories ! nat ice\<rparr>,
            h @ [\<lparr>d_toppings = remdups ts, d_tea_type = tea,
                  d_sugar_percentage = \<lfloor>sugar_draw d * 100\<rfloor>, d_ice_category = ice,
                  d_date = today\<rparr>])"
proof -
  let ?nf = "\<lparr>nf_toppings = clamped 10 (topping_penalties today h),
              nf_tea_type = clamped 8 (tea_penalties today h),
              nf_ice_category = clamped 4 (ice_penalties today h)\<rparr>"
  have nf: "compute_factors today h = Inr ?nf"
    using assms(2) by (rule compute_factors_closed_form)
  have tea_u: "unit_draw (tea_draw d)" and ice_u: "unit_draw (ice_draw d)"
    and sugar_u: "unit_draw (sugar_draw d)"
    using assms(3) by (simp_all add: valid_draws_def)
  have kc: "topping_count d = Inr (int k)"
    unfolding assms(4) using assms(3) by (intro topping_count_valid) (simp add: valid_draws_def)
  have "\<forall>i<k. unit_draw (topping_draws d i)"
    using valid_draws_toppings [OF assms(3)] assms(4) by simp
  from draw_from_total [of "clamped 10 (topping_penalties today h)", OF _ clamped_nonneg this]
  obtain ts where ts: "draw_from (clamped 10 (topping_penalties today h)) k (topping_draws d) = Inr ts"
      "length ts = k" and ts_range: "\<forall>t \<in> set ts. 0 \<le> t \<and> t < 10"
    by (auto simp: clamped_nonempty)
  from single_draw [of "clamped 8 (tea_penalties today h)", OF _ clamped_nonneg tea_u]
  obtain tea where tea: "draw_from (clamped 8 (tea_penalties today h)) 1 (\<lambda>_. tea_draw d) =
        Inr [tea]" "0 \<le> tea" "tea < 8"
    by (auto simp: clamped_nonempty)
  from single_draw [of "clamped 4 (ice_penalties today h)", OF _ clamped_nonneg ice_u]
  obtain ice where ice: "draw_from (clamped 4 (ice_penalties today h)) 1 (\<lambda>_. ice_draw d) =
        Inr [ice]" "0 \<le> ice" "ice < 4"
    by (auto simp: clamped_nonempty)
  let ?sugar = "\<lfloor>sugar_draw d * 100\<rfloor>"
  let ?ord = "\<lparr>toppings = map (\<lambda>t. topping_list ! nat t) (remdups ts),
             tea_type = tea_types ! nat tea, sugar_percentage = ?sugar,
             ice_category = ice_categories ! nat ice\<rparr>"
  have rd: "\<forall>t \<in> set (remdups ts). 0 \<le> t \<and> t < 10"
    using ts_range by simp
  have init: "Order_init (Indices (remdups ts) tea (py_int (sugar_draw d * 100)) ice) = Inr ?ord"
    using Order_init_in_range [OF rd tea(2,3) ice(2,3), of "py_int (sugar_draw d * 100)"]
      sugar_draw_range [OF sugar_u]
    by (simp del: Order_init.simps)
  have dict: "to_dict ?ord = Inr \<lparr>d_toppings = remdups ts, d_tea_type = tea,
      d_sugar_percentage = ?sugar, d_ice_category = ice\<rparr>"
    using rd tea(2,3) ice(2,3) by (rule to_dict_of_indices)
  have "new_order today h d =
       Inr (?ord, h @ [\<lparr>d_toppings = remdups ts, d_tea_type = tea,
                  d_sugar_percentage = ?sugar, d_ice_category = ice, d_date = today\<rparr>])"
    using assms(1)
    by (simp add: new_order_def nf kc ts(1) tea(1) [unfolded One_nat_def]
        ice(1) [unfolded One_nat_def] getitem_single init dict with_date_def
        del: Order_init.simps)
  then show ?thesis
    using ts ts_range tea ice by blast
qed

lemma distinct_names:
  assumes "distinct xs" "distinct ts" "\<forall>t \<in> set ts. 0 \<le> t \<and> t < int (length xs)"
  shows "distinct (map (\<lambda>t. xs ! nat t) ts)"
proof -
  have "inj_on (\<lambda>t. xs ! nat t) (set ts)"
  proof (rule inj_onI)
    fix s t assume st: "s \<in> set ts" "t \<in> set ts" "xs ! nat s = xs ! nat t"
    then have "nat s < length xs" "nat t < length xs" using assms(3) by auto
    then have "nat s = nat t"
      using st(3) assms(1) by (simp add: nth_eq_iff_index_eq)
    moreover have "0 \<le> s" "0 \<le> t" using st(1,2) assms(3) by auto
    ultimately show "s = t" by (simp add: eq_nat_nat_iff)
  qed
  then show ?thesis using assms(2) by (simp add: distinct_map)
qed

lemma nat_floor_fraction:
  assumes "unit_draw u" "0 < n"
  shows "nat \<lfloor>u * real n\<rfloor> < n"
proof -
  from floor_fraction [OF assms] have "0 \<le> \<lfloor>u * real n\<rfloor>" "\<lfloor>u * real n\<rfloor> < int n" .
  then show ?thesis by linarith
qed

text \<open>
  Claim C5. The weighted branch removes duplicates (its toppings are proved distinct below),
  the branch for an empty history does not: with two topping draws that both fall on
  index 3, the first order lists \<open>red bean\<close> twice.
\<close>

theorem first_order_repeats_topping:
  "new_order 10 []
     \<lparr>count_draw = 1, topping_draws = (\<lambda>_. 35 / 100), tea_draw = 1 / 2, sugar_draw = 42 / 100,
      ice_draw = 9 / 10\<rparr> =
   Inr (\<lparr>toppings = [''red bean'', ''red bean''], tea_type = ''yogurt'', sugar_percentage = 42,
         ice_category = ''more''\<rparr>,
        [\<lparr>d_toppings = [3, 3], d_tea_type = 4, d_sugar_percentage = 42, d_ice_category = 3,
          d_date = 10\<rparr>])"
proof -
  let ?d = "\<lparr>count_draw = 1, topping_draws = (\<lambda>_. 35 / 100), tea_draw = 1 / 2,
      sugar_draw = 42 / 100, ice_draw = 9 / 10\<rparr>"
  have "valid_draws ?d"
    by (simp add: valid_draws_def unit_draw_def list_all_iff)
  from new_order_first [OF this, of "Suc (Suc 0)" 10] show ?thesis
    by (simp add: topping_list_def tea_types_def ice_categories_def)
qed

text \<open>
  Claim C7. With an empty history and valid draws, \<open>new_order\<close> returns an order and a
  history of one record, computed from the draws alone, without any weight: the number
  of toppings is \<open>1 + r\<close> for the position \<open>r\<close> drawn in \<open>{0, 1, 2}\<close>, so one of 1, 2, 3;
  each topping, the tea type and the ice category are the domain values at
  \<open>floor (u * n)\<close> for their draw \<open>u\<close> and domain size \<open>n\<close>, a valid position; and the
  sugar percentage is the integer \<open>floor (u * 100)\<close>, in \<open>[0, 100)\<close>.
\<close>

theorem first_order_uniform:
  assumes "valid_draws d"
  shows "\<exists>ord r. new_order today [] d = Inr (ord, [r])
     \<and> length (toppings ord) = Suc (count_draw d)
     \<and> 1 \<le> length (toppings ord) \<and> length (toppings ord) \<le> 3
     \<and> (\<forall>i<Suc (count_draw d). toppings ord ! i = topping_list ! nat \<lfloor>topping_draws d i * 10\<rfloor>
          \<and> nat \<lfloor>topping_draws d i * 10\<rfloor> < length topping_list)
     \<and> tea_type ord = tea_types ! nat \<lfloor>tea_draw d * 8\<rfloor>
     \<and> nat \<lfloor>tea_draw d * 8\<rfloor> < length tea_types
     \<and> ice_category ord = ice_categories ! nat \<lfloor>ice_draw d * 4\<rfloor>
     \<and> nat \<lfloor>ice_draw d * 4\<rfloor> < length ice_categories
     \<and> sugar_percentage ord = \<lfloor>sugar_draw d * 100\<rfloor>
     \<and> 0 \<le> sugar_percentage ord \<and> sugar_percentage ord < 100"
proof -
  define k where "k = Suc (count_draw d)"
  let ?ord = "\<lparr>toppings = map (\<lambda>i. topping_list ! nat \<lfloor>topping_draws d i * 10\<rfloor>) [0..<k],
           tea_type = tea_types ! nat \<lfloor>tea_draw d * 8\<rfloor>,
           sugar_percentage = \<lfloor>sugar_draw d * 100\<rfloor>,
           ice_category = ice_categories ! nat \<lfloor>ice_draw d * 4\<rfloor>\<rparr>"
  have tea: "unit_draw (tea_draw d)" and ice: "unit_draw (ice_draw d)"
    and sugar: "unit_draw (sugar_draw d)" and cnt: "count_draw d < 3"
    using assms by (simp_all add: valid_draws_def)
  have val: "\<exists>r. new_order today [] d = Inr (?ord, [r])"
    using new_order_first [OF assms k_def, of today] by blast
  have len: "length (toppings ?ord) = Suc (count_draw d)"
    by (simp add: k_def)
  have tops: "toppings ?ord ! i = topping_list ! nat \<lfloor>topping_draws d i * 10\<rfloor>
      \<and> nat \<lfloor>topping_draws d i * 10\<rfloor> < length topping_list" if "i < Suc (count_draw d)" for i
  proof -
    have "i < k" using that by (simp add: k_def)
    moreover have "nat \<lfloor>topping_draws d i * 10\<rfloor> < 10"
      using nat_floor_fraction [OF valid_draws_toppings [OF assms that], of 10] by simp
    ultimately show ?thesis by simp
  qed
  have tea_r: "nat \<lfloor>tea_draw d * 8\<rfloor> < length tea_types"
    using nat_floor_fraction [OF tea, of 8] by simp
  have ice_r: "nat \<lfloor>ice_draw d * 4\<rfloor> < length ice_categories"
    using nat_floor_fraction [OF ice, of 4] by simp
  have sug: "0 \<le> sugar_percentage ?ord" "sugar_percentage ?ord < 100"
    using sugar_draw_range(2,3) [OF sugar] by simp_all
  from val obtain r where r: "new_order today [] d = Inr (?ord, [r])" ..
  show ?thesis
  proof (intro exI conjI)
    show "new_order today [] d = Inr (?ord, [r])" by (rule r)
    show "length (toppings ?ord) = Suc (count_draw d)" by (rule len)
    show "1 \<le> length (toppings ?ord)" using len by simp
    show "length (toppings ?ord) \<le> 3" using len cnt by simp
    show "\<forall>i<Suc (count_draw d). toppings ?ord ! i = topping_list ! nat \<lfloor>topping_draws d i * 10\<rfloor>
          \<and> nat \<lfloor>topping_draws d i * 10\<rfloor> < length topping_list"
      using tops by blast
    show "tea_type ?ord = tea_types ! nat \<lfloor>tea_draw d * 8\<rfloor>" by simp
    show "nat \<lfloor>tea_draw d * 8\<rfloor> < length tea_types" by (rule tea_r)
    show "ice_category ?ord = ice_categories ! nat \<lfloor>ice_draw d * 4\<rfloor>" by simp
    show "nat \<lfloor>ice_draw d * 4\<rfloor> < length ice_categories" by (rule ice_r)
    show "sugar_percentage ?ord = \<lfloor>sugar_draw d * 100\<rfloor>" by simp
    show "0 \<le> sugar_percentage ?ord" by (rule sug)
    show "sugar_percentage ?ord < 100" by (rule sug)
  qed
qed


theorem first_order_uniform_witness:
  "valid_draws
     \<lparr>count_draw = 1, topping_draws = (\<lambda>i. if i = 0 then 35 / 100 else 72 / 100),
      tea_draw = 1 / 2, sugar_draw = 42 / 100, ice_draw = 9 / 10\<rparr>
   \<and> (\<exists>ord r. new_order 10 []
        \<lparr>count_draw = 1, topping_draws = (\<lambda>i. if i = 0 then 35 / 100 else 72 / 100),
         tea_draw = 1 / 2, sugar_draw = 42 / 100, ice_draw = 9 / 10\<rparr> = Inr (ord, [r])
      \<and> length (toppings ord) = 2
      \<and> toppings ord ! 0 = ''red bean'' \<and> toppings ord ! 1 = ''aloe jelly''
      \<and> tea_type ord = ''yogurt'' \<and> sugar_percentage ord = 42 \<and> ice_category ord = ''more'')"
proof -
  define d where "d = \<lparr>count_draw = 1,
      topping_draws = (\<lambda>i. if i = 0 then 35 / 100 else 72 / 100 :: real),
      tea_draw = 1 / 2, sugar_draw = 42 / 100, ice_draw = 9 / 10\<rparr>"
  have v: "valid_draws d"
    by (simp add: d_def valid_draws_def unit_draw_def list_all_iff)
  from first_order_uniform [OF v, of 10]
  obtain ord r where res: "new_order 10 [] d = Inr (ord, [r])"
    and len: "length (toppings ord) = Suc (count_draw d)"
    and tops: "\<forall>i<Suc (count_draw d). toppings ord ! i = topping_list ! nat \<lfloor>topping_draws d i * 10\<rfloor>
          \<and> nat \<lfloor>topping_draws d i * 10\<rfloor> < length topping_list"
    and tea: "tea_type ord = tea_types ! nat \<lfloor>tea_draw d * 8\<rfloor>"
    and ice: "ice_category ord = ice_categories ! nat \<lfloor>ice_draw d * 4\<rfloor>"
    and sugar: "sugar_percentage ord = \<lfloor>sugar_draw d * 100\<rfloor>"
    by blast
  have "length (toppings ord) = 2" using len by (simp add: d_def)
  moreover have "toppings ord ! 0 = ''red bean''"
    using tops [rule_format, of 0] by (simp add: d_def topping_list_def)
  moreover have "toppings ord ! 1 = ''aloe jelly''"
    using tops [rule_format, of 1] by (simp add: d_def topping_list_def)
  moreover have "tea_type ord = ''yogurt''"
    using tea by (simp add: d_def tea_types_def)
  moreover have "ice_category ord = ''more''"
    using ice by (simp add: d_def ice_categories_def)
  moreover have "sugar_percentage ord = 42"
    using sugar by (simp add: d_def)
  ultimately show ?thesis
    using v res unfolding d_def by blast
qed

text \<open>
  Claim C10. In the weighted branch (non-empty, well-formed history, valid draws) the
  generated order's toppings are distinct, and their number is at least 1, at most the
  number \<open>k = 1 + r\<close> of draws, and so at most 3.
\<close>

theorem weighted_topping_count:
  assumes "h \<noteq> []" "well_formed today h" "valid_draws d"
  shows "\<exists>ord h'. new_order today h d = Inr (ord, h') \<and> distinct (toppings ord)
     \<and> 1 \<le> length (toppings ord) \<and> length (toppings ord) \<le> Suc (count_draw d)
     \<and> length (toppings ord) \<le> 3"
proof -
  from new_order_weighted [OF assms refl]
  obtain ts tea ice where ts: "length ts = Suc (count_draw d)" "\<forall>t \<in> set ts. 0 \<le> t \<and> t < 10"
    and res: "new_order today h d =
       Inr (\<lparr>toppings = map (\<lambda>t. topping_list ! nat t) (remdups ts),
             tea_type = tea_types ! nat tea,
             sugar_percentage = \<lfloor>sugar_draw d * 100\<rfloor>,
             ice_category = ice_categories ! nat ice\<rparr>,
            h @ [\<lparr>d_toppings = remdups ts, d_tea_type = tea,
                  d_sugar_percentage = \<lfloor>sugar_draw d * 100\<rfloor>, d_ice_category = ice,
                  d_date = today\<rparr>])"
    by blast
  let ?ord = "\<lparr>toppings = map (\<lambda>t. topping_list ! nat t) (remdups ts),
             tea_type = tea_types ! nat tea,
             sugar_percentage = \<lfloor>sugar_draw d * 100\<rfloor>,
             ice_category = ice_categories ! nat ice\<rparr>"
  have len: "length (toppings ?ord) = length (remdups ts)" by simp
  have "ts \<noteq> []" using ts(1) by auto
  then have "remdups ts \<noteq> []" by simp
  then have "0 < length (remdups ts)" by simp
  then have low: "1 \<le> length (toppings ?ord)"
    unfolding len by linarith
  have up: "length (toppings ?ord) \<le> Suc (count_draw d)"
    unfolding len using length_remdups_leq [of ts] ts(1) by linarith
  have "count_draw d < 3" using assms(3) by (simp add: valid_draws_def)
  then have up3: "length (toppings ?ord) \<le> 3" using up by linarith
  have "distinct (map (\<lambda>t. topping_list ! nat t) (remdups ts))"
    using ts(2) by (intro distinct_names distinct_topping_list) simp_all
  then have dist: "distinct (toppings ?ord)" by (simp only: Order.select_convs)
  show ?thesis
    using res dist low up up3 by blast
qed

theorem weighted_topping_count_witness:
  "well_formed 5
     [\<lparr>d_toppings = [0], d_tea_type = 1, d_sugar_percentage = 30, d_ice_category = 0, d_date = 5\<rparr>]
   \<and> valid_draws
     \<lparr>count_draw = 1, topping_draws = (\<lambda>_. 35 / 100), tea_draw = 1 / 2, sugar_draw = 42 / 100,
      ice_draw = 9 / 10\<rparr>
   \<and> new_order 5
        [\<lparr>d_toppings = [0], d_tea_type = 1, d_sugar_percentage = 30, d_ice_category = 0,
          d_date = 5\<rparr>]
        \<lparr>count_draw = 1, topping_draws = (\<lambda>_. 35 / 100), tea_draw = 1 / 2,
         sugar_draw = 42 / 100, ice_draw = 9 / 10\<rparr>
      = Inr (\<lparr>toppings = [''coffee popping bubbles''], tea_type = ''yogurt'',
              sugar_percentage = 42, ice_category = ''more''\<rparr>,
          [\<lparr>d_toppings = [0], d_tea_type = 1, d_sugar_percentage = 30, d_ice_category = 0,
            d_date = 5\<rparr>,
           \<lparr>d_toppings = [4], d_tea_type = 4, d_sugar_percentage = 42, d_ice_category = 3,
            d_date = 5\<rparr>])
   \<and> distinct [''coffee popping bubbles'']"
proof -
  define h where "h = [\<lparr>d_toppings = [0], d_tea_type = 1, d_sugar_percentage = 30,
      d_ice_category = 0, d_date = 5\<rparr>]"
  define d where "d = \<lparr>count_draw = 1, topping_draws = (\<lambda>_. 35 / 100 :: real),
      tea_draw = 1 / 2, sugar_draw = 42 / 100, ice_draw = 9 / 10\<rparr>"
  have wf: "well_formed 5 h"
    by (simp add: h_def well_formed_def well_formed_record_def)
  have v: "valid_draws d"
    by (simp add: d_def valid_draws_def unit_draw_def list_all_iff)
  have ne: "h \<noteq> []" by (simp add: h_def)
  have cf: "compute_factors 5 h =
      Inr \<lparr>nf_toppings = [0, 1, 1, 1, 1, 1, 1, 1, 1, 1],
          nf_tea_type = [1, 0, 1, 1, 1, 1, 1, 1], nf_ice_category = [0, 1, 1, 1]\<rparr>"
    by (simp add: h_def compute_factors_def initial_factors_def score_order_def
        novelty_penalty_value penalize_def resolve_def topping_list_def tea_types_def
        ice_categories_def)
  have eval: "new_order 5 h d =
      Inr (\<lparr>toppings = [''coffee popping bubbles''], tea_type = ''yogurt'',
              sugar_percentage = 42, ice_category = ''more''\<rparr>,
          h @ [\<lparr>d_toppings = [4], d_tea_type = 4, d_sugar_percentage = 42, d_ice_category = 3,
            d_date = 5\<rparr>])"
    using ne
    by (simp add: new_order_def cf d_def topping_count_def getitem_def resolve_def draw_from_def
        choices_def accumulate_def bisect.simps range_item_def Let_def upt_rec py_int_def
        to_dict_def with_date_def topping_list_def tea_types_def ice_categories_def)
  from weighted_topping_count [OF ne wf v]
  obtain ord h' where "new_order 5 h d = Inr (ord, h')" "distinct (toppings ord)"
    by blast
  then have "distinct [''coffee popping bubbles'']"
    using eval by simp
  then show ?thesis
    using wf v eval unfolding h_def d_def by simp
qed

section \<open>What the generated order and the stored record are\<close>

text \<open>What the selector's rule says of the picks \<open>draw_from\<close> returned.\<close>

lemma picks_follow_weights:
  assumes "draw_from v k draw = Inr picks" "v \<noteq> []" "\<forall>w \<in> set v. 0 \<le> w"
    "\<forall>i<k. unit_draw (draw i)"
  shows "\<forall>i<k. 0 \<le> picks ! i \<and> picks ! i < int (length v)"
    and "sum_list v = 0 \<longrightarrow>
          (\<forall>i<k. \<forall>j<length v.
             (picks ! i = int j) =
             (real j / real (length v) \<le> draw i \<and> draw i < real (Suc j) / real (length v)))"
    and "0 < sum_list v \<longrightarrow>
          (\<forall>i<k. \<forall>j<length v.
             (picks ! i = int j) =
             (sum_list (take j v) / sum_list v \<le> draw i
              \<and> draw i < sum_list (take (Suc j) v) / sum_list v))
          \<and> (\<forall>i<k. 0 < v ! nat (picks ! i))"
proof -
  from draw_from_distribution [OF assms(2-4)] obtain ps where ps:
    "draw_from v k draw = Inr ps \<and> length ps = k
     \<and> (\<forall>i<k. 0 \<le> ps ! i \<and> ps ! i < int (length v))
     \<and> (sum_list v = 0 \<longrightarrow>
          (\<forall>i<k. \<forall>j<length v.
             (ps ! i = int j) =
             (real j / real (length v) \<le> draw i \<and> draw i < real (Suc j) / real (length v))))
     \<and> (0 < sum_list v \<longrightarrow>
          (\<forall>i<k. \<forall>j<length v.
             (ps ! i = int j) =
             (sum_list (take j v) / sum_list v \<le> draw i
              \<and> draw i < sum_list (take (Suc j) v) / sum_list v))
          \<and> (\<forall>i<k. 0 < v ! nat (ps ! i)))" ..
  have eq: "ps = picks"
    using ps [THEN conjunct1] assms(1) by simp
  show "\<forall>i<k. 0 \<le> picks ! i \<and> picks ! i < int (length v)"
    using ps [THEN conjunct2, THEN conjunct2, THEN conjunct1] unfolding eq .
  show "sum_list v = 0 \<longrightarrow>
          (\<forall>i<k. \<forall>j<length v.
             (picks ! i = int j) =
             (real j / real (length v) \<le> draw i \<and> draw i < real (Suc j) / real (length v)))"
    using ps [THEN conjunct2, THEN conjunct2, THEN conjunct2, THEN conjunct1] unfolding eq .
  show "0 < sum_list v \<longrightarrow>
          (\<forall>i<k. \<forall>j<length v.
             (picks ! i = int j) =
             (sum_list (take j v) / sum_list v \<le> draw i
              \<and> draw i < sum_list (take (Suc j) v) / sum_list v))
          \<and> (\<forall>i<k. 0 < v ! nat (picks ! i))"
    using ps [THEN conjunct2, THEN conjunct2, THEN conjunct2, THEN conjunct2] unfolding eq .
qed

text \<open>The same for the single draw behind the tea type and the ice category.\<close>

lemma single_pick_follows_weights:
  assumes "draw_from v 1 (\<lambda>_. u) = Inr [x]" "v \<noteq> []" "\<forall>w \<in> set v. 0 \<le> w" "unit_draw u"
  shows "sum_list v = 0 \<longrightarrow>
          (\<forall>j<length v.
             (x = int j) = (real j / real (length v) \<le> u \<and> u < real (Suc j) / real (length v)))"
    and "0 < sum_list v \<longrightarrow>
          (\<forall>j<length v.
             (x = int j) =
             (sum_list (take j v) / sum_list v \<le> u \<and> u < sum_list (take (Suc j) v) / sum_list v))
          \<and> 0 < v ! nat x"
proof -
  have u: "\<forall>i<1. unit_draw ((\<lambda>_. u) i)" using assms(4) by simp
  note p = picks_follow_weights(2,3) [OF assms(1-3) u]
  show "sum_list v = 0 \<longrightarrow>
          (\<forall>j<length v.
             (x = int j) = (real j / real (length v) \<le> u \<and> u < real (Suc j) / real (length v)))"
    using p(1) by simp
  show "0 < sum_list v \<longrightarrow>
          (\<forall>j<length v.
             (x = int j) =
             (sum_list (take j v) / sum_list v \<le> u \<and> u < sum_list (take (Suc j) v) / sum_list v))
          \<and> 0 < v ! nat x"
    using p(2) by simp
qed

lemma map_index_of_sound:
  "map_raising (index_of xs) ys = Inr ks \<Longrightarrow>
     ys = map (\<lambda>k. xs ! nat k) ks \<and> (\<forall>k \<in> set ks. 0 \<le> k \<and> k < int (length xs))"
proof (induction ys arbitrary: ks)
  case Nil
  then show ?case by auto
next
  case (Cons y ys)
  then obtain k ks' where k: "index_of xs y = Inr k" "map_raising (index_of xs) ys = Inr ks'"
      "ks = k # ks'"
    by (auto simp: and_then_eq_Inr)
  from index_of_sound [OF k(1)] Cons.IH [OF k(2)] show ?case
    unfolding k(3) by simp
qed

text \<open>Every dictionary \<open>to_dict\<close> returns holds in-range indices that decode to the order.\<close>

lemma to_dict_sound:
  assumes "to_dict ord = Inr dict"
  shows "toppings ord = map (\<lambda>t. topping_list ! nat t) (d_toppings dict)"
    and "\<forall>t \<in> set (d_toppings dict). 0 \<le> t \<and> t < 10"
    and "tea_type ord = tea_types ! nat (d_tea_type dict)"
    and "0 \<le> d_tea_type dict" "d_tea_type dict < 8"
    and "ice_category ord = ice_categories ! nat (d_ice_category dict)"
    and "0 \<le> d_ice_category dict" "d_ice_category dict < 4"
    and "d_sugar_percentage dict = sugar_percentage ord"
proof -
  obtain tops tea ice where
    tops: "map_raising (index_of topping_list) (toppings ord) = Inr tops"
    and tea: "index_of tea_types (tea_type ord) = Inr tea"
    and ice: "index_of ice_categories (ice_category ord) = Inr ice"
    and dict: "dict = \<lparr>d_toppings = tops, d_tea_type = tea,
        d_sugar_percentage = sugar_percentage ord, d_ice_category = ice\<rparr>"
    using assms unfolding to_dict_def and_then_eq_Inr by auto
  from map_index_of_sound [OF tops]
  show "toppings ord = map (\<lambda>t. topping_list ! nat t) (d_toppings dict)"
    and "\<forall>t \<in> set (d_toppings dict). 0 \<le> t \<and> t < 10"
    unfolding dict by simp_all
  from index_of_sound [OF tea]
  show "tea_type ord = tea_types ! nat (d_tea_type dict)"
    and "0 \<le> d_tea_type dict" "d_tea_type dict < 8"
    unfolding dict by simp_all
  from index_of_sound [OF ice]
  show "ice_category ord = ice_categories ! nat (d_ice_category dict)"
    and "0 \<le> d_ice_category dict" "d_ice_category dict < 4"
    unfolding dict by simp_all
  show "d_sugar_percentage dict = sugar_percentage ord"
    unfolding dict by simp
qed

lemma new_order_stores:
  assumes "new_order today h d = Inr (ord, h')"
  shows "\<exists>dict. to_dict ord = Inr dict \<and> h' = h @ [with_date dict today]"
proof (cases "h = []")
  case True
  then show ?thesis
    using assms by (auto simp: new_order_def and_then_eq_Inr)
next
  case False
  then show ?thesis
    using assms by (auto simp: new_order_def and_then_eq_Inr Let_def)
qed

text \<open>
  Claim C9. Whenever \<open>new_order\<close> returns, the history it stores is the previous
  history followed by exactly one record: the earlier records are unchanged and in
  place, nothing is removed, and the stored history is non-empty. The new record is
  dated today, holds the order's sugar percentage, and holds in-range indices that
  decode to the order's toppings, tea type and ice category; it is the \<open>to_dict\<close>
  encoding of the order with the date added. \<open>new_order\<close> returns for every well-formed
  history and valid draws, in both branches.
\<close>

theorem new_order_appends_one_record:
  "(\<forall>ord h'. new_order today h d = Inr (ord, h') \<longrightarrow>
      (\<exists>r. h' = h @ [r] \<and> h' \<noteq> [] \<and> length h' = Suc (length h) \<and> take (length h) h' = h
         \<and> d_date r = today
         \<and> toppings ord = map (\<lambda>t. topping_list ! nat t) (d_toppings r)
         \<and> (\<forall>t \<in> set (d_toppings r). 0 \<le> t \<and> t < 10)
         \<and> tea_type ord = tea_types ! nat (d_tea_type r)
         \<and> 0 \<le> d_tea_type r \<and> d_tea_type r < 8
         \<and> ice_category ord = ice_categories ! nat (d_ice_category r)
         \<and> 0 \<le> d_ice_category r \<and> d_ice_category r < 4
         \<and> d_sugar_percentage r = sugar_percentage ord
         \<and> (\<exists>dict. to_dict ord = Inr dict \<and> r = with_date dict today)))
   \<and> (well_formed today h \<and> valid_draws d \<longrightarrow> (\<exists>ord h'. new_order today h d = Inr (ord, h')))"
proof -
  have part: "\<exists>r. h' = h @ [r] \<and> h' \<noteq> [] \<and> length h' = Suc (length h) \<and> take (length h) h' = h
         \<and> d_date r = today
         \<and> toppings ord = map (\<lambda>t. topping_list ! nat t) (d_toppings r)
         \<and> (\<forall>t \<in> set (d_toppings r). 0 \<le> t \<and> t < 10)
         \<and> tea_type ord = tea_types ! nat (d_tea_type r)
         \<and> 0 \<le> d_tea_type r \<and> d_tea_type r < 8
         \<and> ice_category ord = ice_categories ! nat (d_ice_category r)
         \<and> 0 \<le> d_ice_category r \<and> d_ice_category r < 4
         \<and> d_sugar_percentage r = sugar_percentage ord
         \<and> (\<exists>dict. to_dict ord = Inr dict \<and> r = with_date dict today)"
    if "new_order today h d = Inr (ord, h')" for ord h'
  proof -
    from new_order_stores [OF that] obtain dict where
      dict: "to_dict ord = Inr dict" and h': "h' = h @ [with_date dict today]"
      by blast
    let ?r = "with_date dict today"
    note s = to_dict_sound [OF dict]
    have "h' = h @ [?r]" by (rule h')
    moreover have "h' \<noteq> []" "length h' = Suc (length h)" "take (length h) h' = h"
      unfolding h' by simp_all
    moreover have "d_date ?r = today" by (simp add: with_date_def)
    moreover have "toppings ord = map (\<lambda>t. topping_list ! nat t) (d_toppings ?r)"
      using s(1) by (simp add: with_date_def)
    moreover have "\<forall>t \<in> set (d_toppings ?r). 0 \<le> t \<and> t < 10"
      using s(2) by (simp add: with_date_def)
    moreover have "tea_type ord = tea_types ! nat (d_tea_type ?r)"
      "0 \<le> d_tea_type ?r" "d_tea_type ?r < 8"
      using s(3,4,5) by (simp_all add: with_date_def)
    moreover have "ice_category ord = ice_categories ! nat (d_ice_category ?r)"
      "0 \<le> d_ice_category ?r" "d_ice_category ?r < 4"
      using s(6,7,8) by (simp_all add: with_date_def)
    moreover have "d_sugar_percentage ?r = sugar_percentage ord"
      using s(9) by (simp add: with_date_def)
    moreover have "\<exists>dict. to_dict ord = Inr dict \<and> ?r = with_date dict today"
      using dict by blast
    ultimately show ?thesis by blast
  qed
  have total: "\<exists>ord h'. new_order today h d = Inr (ord, h')"
    if "well_formed today h" "valid_draws d"
  proof (cases "h = []")
    case True
    then show ?thesis
      using new_order_first [OF that(2) refl, of today] by blast
  next
    case False
    then show ?thesis
      using new_order_weighted [OF False that refl] by blast
  qed
  show ?thesis using part total by blast
qed

theorem new_order_appends_one_record_witness:
  "well_formed 5
     [\<lparr>d_toppings = [0], d_tea_type = 1, d_sugar_percentage = 30, d_ice_category = 0, d_date = 5\<rparr>]
   \<and> valid_draws
     \<lparr>count_draw = 2, topping_draws = (\<lambda>i. if i = 0 then 35 / 100 else 72 / 100),
      tea_draw = 1 / 2, sugar_draw = 42 / 100, ice_draw = 9 / 10\<rparr>
   \<and> new_order 5
        [\<lparr>d_toppings = [0], d_tea_type = 1, d_sugar_percentage = 30, d_ice_category = 0,
          d_date = 5\<rparr>]
        \<lparr>count_draw = 2, topping_draws = (\<lambda>i. if i = 0 then 35 / 100 else 72 / 100),
         tea_draw = 1 / 2, sugar_draw = 42 / 100, ice_draw = 9 / 10\<rparr>
      = Inr (\<lparr>toppings = [''coffee popping bubbles'', ''aloe jelly''], tea_type = ''yogurt'',
              sugar_percentage = 42, ice_category = ''more''\<rparr>,
          [\<lparr>d_toppings = [0], d_tea_type = 1, d_sugar_percentage = 30, d_ice_category = 0,
            d_date = 5\<rparr>,
           \<lparr>d_toppings = [4, 7], d_tea_type = 4, d_sugar_percentage = 42, d_ice_category = 3,
            d_date = 5\<rparr>])
   \<and> [''coffee popping bubbles'', ''aloe jelly''] = map (\<lambda>t. topping_list ! nat t) [4, 7]"
proof -
  define h where "h = [\<lparr>d_toppings = [0], d_tea_type = 1, d_sugar_percentage = 30,
      d_ice_category = 0, d_date = 5\<rparr>]"
  define d where "d = \<lparr>count_draw = 2,
      topping_draws = (\<lambda>i. if i = 0 then 35 / 100 else 72 / 100 :: real),
      tea_draw = 1 / 2, sugar_draw = 42 / 100, ice_draw = 9 / 10\<rparr>"
  have wf: "well_formed 5 h"
    by (simp add: h_def well_formed_def well_formed_record_def)
  have v: "valid_draws d"
    by (simp add: d_def valid_draws_def unit_draw_def list_all_iff)
  have ne: "h \<noteq> []" by (simp add: h_def)
  have cf: "compute_factors 5 h =
      Inr \<lparr>nf_toppings = [0, 1, 1, 1, 1, 1, 1, 1, 1, 1],
          nf_tea_type = [1, 0, 1, 1, 1, 1, 1, 1], nf_ice_category = [0, 1, 1, 1]\<rparr>"
    by (simp add: h_def compute_factors_def initial_factors_def score_order_def
        novelty_penalty_value penalize_def resolve_def topping_list_def tea_types_def
        ice_categories_def)
  have eval: "new_order 5 h d =
      Inr (\<lparr>toppings = [''coffee popping bubbles'', ''aloe jelly''], tea_type = ''yogurt'',
              sugar_percentage = 42, ice_category = ''more''\<rparr>,
          h @ [\<lparr>d_toppings = [4, 7], d_tea_type = 4, d_sugar_percentage = 42,
            d_ice_category = 3, d_date = 5\<rparr>])"
    using ne
    by (simp add: new_order_def cf d_def topping_count_def getitem_def resolve_def
        draw_from_def choices_def accumulate_def bisect.simps range_item_def Let_def upt_rec
        py_int_def to_dict_def with_date_def topping_list_def tea_types_def ice_categories_def)
  from new_order_appends_one_record [of 5 h d] eval
  obtain r where r: "h @ [\<lparr>d_toppings = [4, 7], d_tea_type = 4, d_sugar_percentage = 42,
            d_ice_category = 3, d_date = 5\<rparr>] = h @ [r]"
    "[''coffee popping bubbles'', ''aloe jelly''] = map (\<lambda>t. topping_list ! nat t) (d_toppings r)"
    by auto
  from r(1) have "r = \<lparr>d_toppings = [4, 7], d_tea_type = 4, d_sugar_percentage = 42,
            d_ice_category = 3, d_date = 5\<rparr>"
    by simp
  with r(2) have "[''coffee popping bubbles'', ''aloe jelly''] = map (\<lambda>t. topping_list ! nat t) [4, 7]"
    by simp
  then show ?thesis
    using wf v eval unfolding h_def d_def by simp
qed

text \<open>
  Claim C4. In the weighted branch (non-empty, well-formed history, valid draws)
  \<open>new_order\<close> draws every categorical value from the weights \<open>compute_factors\<close> returns
  for that history. There are \<open>k = 1 + r\<close> topping picks, whose distinct values are the
  stored toppings, and one pick each for the tea type and the ice category; the order
  holds the domain values at the picked indices. For each domain and each pick: when
  the domain's weights sum to 0, the draw \<open>u\<close> picks \<open>j\<close> exactly when it falls in
  \<open>[j / n, (j + 1) / n)\<close>, an interval of length \<open>1 / n\<close>, so the choice is uniform over the
  domain; when the sum is positive, the draw picks \<open>j\<close> exactly when it falls between the
  partial sums of the weights before and after \<open>j\<close>, divided by the total, an interval
  whose length is the weight of \<open>j\<close> over the total, so the choice is proportional to the
  weights, the picked weight is positive and a value of weight 0 is never selected.
\<close>

theorem selector_distribution:
  assumes "h \<noteq> []" "well_formed today h" "valid_draws d"
  shows "\<exists>nf ord r ts.
       compute_factors today h = Inr nf \<and> new_order today h d = Inr (ord, h @ [r])
     \<and> length ts = Suc (count_draw d) \<and> d_toppings r = remdups ts
     \<and> toppings ord = map (\<lambda>t. topping_list ! nat t) (d_toppings r)
     \<and> tea_type ord = tea_types ! nat (d_tea_type r)
     \<and> ice_category ord = ice_categories ! nat (d_ice_category r)
     \<and> (\<forall>i<Suc (count_draw d). 0 \<le> ts ! i \<and> ts ! i < 10)
     \<and> 0 \<le> d_tea_type r \<and> d_tea_type r < 8 \<and> 0 \<le> d_ice_category r \<and> d_ice_category r < 4
     \<and> (sum_list (nf_toppings nf) = 0 \<longrightarrow>
          (\<forall>i<Suc (count_draw d). \<forall>j<10.
             (ts ! i = int j) =
             (real j / 10 \<le> topping_draws d i \<and> topping_draws d i < real (Suc j) / 10)))
     \<and> (0 < sum_list (nf_toppings nf) \<longrightarrow>
          (\<forall>i<Suc (count_draw d). \<forall>j<10.
             (ts ! i = int j) =
             (sum_list (take j (nf_toppings nf)) / sum_list (nf_toppings nf) \<le> topping_draws d i
              \<and> topping_draws d i
                  < sum_list (take (Suc j) (nf_toppings nf)) / sum_list (nf_toppings nf)))
          \<and> (\<forall>t \<in> set (d_toppings r). 0 < nf_toppings nf ! nat t))
     \<and> (sum_list (nf_tea_type nf) = 0 \<longrightarrow>
          (\<forall>j<8. (d_tea_type r = int j) =
             (real j / 8 \<le> tea_draw d \<and> tea_draw d < real (Suc j) / 8)))
     \<and> (0 < sum_list (nf_tea_type nf) \<longrightarrow>
          (\<forall>j<8. (d_tea_type r = int j) =
             (sum_list (take j (nf_tea_type nf)) / sum_list (nf_tea_type nf) \<le> tea_draw d
              \<and> tea_draw d < sum_list (take (Suc j) (nf_tea_type nf)) / sum_list (nf_tea_type nf)))
          \<and> 0 < nf_tea_type nf ! nat (d_tea_type r))
     \<and> (sum_list (nf_ice_category nf) = 0 \<longrightarrow>
          (\<forall>j<4. (d_ice_category r = int j) =
             (real j / 4 \<le> ice_draw d \<and> ice_draw d < real (Suc j) / 4)))
     \<and> (0 < sum_list (nf_ice_category nf) \<longrightarrow>
          (\<forall>j<4. (d_ice_category r = int j) =
             (sum_list (take j (nf_ice_category nf)) / sum_list (nf_ice_category nf) \<le> ice_draw d
              \<and> ice_draw d
                  < sum_list (take (Suc j) (nf_ice_category nf)) / sum_list (nf_ice_category nf)))
          \<and> 0 < nf_ice_category nf ! nat (d_ice_category r))"
proof -
  define k where "k = Suc (count_draw d)"
  define vt where "vt = clamped 10 (topping_penalties today h)"
  define va where "va = clamped 8 (tea_penalties today h)"
  define vi where "vi = clamped 4 (ice_penalties today h)"
  let ?nf = "\<lparr>nf_toppings = vt, nf_tea_type = va, nf_ice_category = vi\<rparr>"
  have nf: "compute_factors today h = Inr ?nf"
    unfolding vt_def va_def vi_def using assms(2) by (rule compute_factors_closed_form)
  have len: "length vt = 10" "length va = 8" "length vi = 4"
    by (simp_all add: vt_def va_def vi_def)
  have ne: "vt \<noteq> []" "va \<noteq> []" "vi \<noteq> []"
    by (simp_all add: vt_def va_def vi_def clamped_nonempty)
  have nonneg: "\<forall>w \<in> set vt. 0 \<le> w" "\<forall>w \<in> set va. 0 \<le> w" "\<forall>w \<in> set vi. 0 \<le> w"
    unfolding vt_def va_def vi_def by (rule clamped_nonneg)+
  have tea_u: "unit_draw (tea_draw d)" and ice_u: "unit_draw (ice_draw d)"
    using assms(3) by (simp_all add: valid_draws_def)
  have top_u: "\<forall>i<k. unit_draw (topping_draws d i)"
    using valid_draws_toppings [OF assms(3)] by (simp add: k_def)
  from new_order_weighted [OF assms k_def]
  obtain ts tea ice where ts: "length ts = k"
    and tea_r: "0 \<le> tea" "tea < 8" and ice_r: "0 \<le> ice" "ice < 4"
    and dt: "draw_from vt k (topping_draws d) = Inr ts"
    and da: "draw_from va 1 (\<lambda>_. tea_draw d) = Inr [tea]"
    and di: "draw_from vi 1 (\<lambda>_. ice_draw d) = Inr [ice]"
    and res: "new_order today h d =
       Inr (\<lparr>toppings = map (\<lambda>t. topping_list ! nat t) (remdups ts),
             tea_type = tea_types ! nat tea,
             sugar_percentage = \<lfloor>sugar_draw d * 100\<rfloor>,
             ice_category = ice_categories ! nat ice\<rparr>,
            h @ [\<lparr>d_toppings = remdups ts, d_tea_type = tea,
                  d_sugar_percentage = \<lfloor>sugar_draw d * 100\<rfloor>, d_ice_category = ice,
                  d_date = today\<rparr>])"
    unfolding vt_def va_def vi_def by blast
  let ?ord = "\<lparr>toppings = map (\<lambda>t. topping_list ! nat t) (remdups ts),
             tea_type = tea_types ! nat tea,
             sugar_percentage = \<lfloor>sugar_draw d * 100\<rfloor>,
             ice_category = ice_categories ! nat ice\<rparr>"
  let ?r = "\<lparr>d_toppings = remdups ts, d_tea_type = tea,
                  d_sugar_percentage = \<lfloor>sugar_draw d * 100\<rfloor>, d_ice_category = ice,
                  d_date = today\<rparr>"
  note pt = picks_follow_weights [OF dt ne(1) nonneg(1) top_u, unfolded len]
  note pa = single_pick_follows_weights [OF da ne(2) nonneg(2) tea_u, unfolded len]
  note pi = single_pick_follows_weights [OF di ne(3) nonneg(3) ice_u, unfolded len]
  have c1: "compute_factors today h = Inr ?nf" by (rule nf)
  have c2: "new_order today h d = Inr (?ord, h @ [?r])" by (rule res)
  have c3: "length ts = Suc (count_draw d)" using ts by (simp add: k_def)
  have c4: "d_toppings ?r = remdups ts" by simp
  have c5: "toppings ?ord = map (\<lambda>t. topping_list ! nat t) (d_toppings ?r)" by simp
  have c6: "tea_type ?ord = tea_types ! nat (d_tea_type ?r)" by simp
  have c7: "ice_category ?ord = ice_categories ! nat (d_ice_category ?r)" by simp
  have c8: "\<forall>i<Suc (count_draw d). 0 \<le> ts ! i \<and> ts ! i < 10"
    using pt(1) by (simp add: k_def)
  have c9: "0 \<le> d_tea_type ?r" "d_tea_type ?r < 8" "0 \<le> d_ice_category ?r" "d_ice_category ?r < 4"
    using tea_r ice_r by simp_all
  have c10: "sum_list (nf_toppings ?nf) = 0 \<longrightarrow>
          (\<forall>i<Suc (count_draw d). \<forall>j<10.
             (ts ! i = int j) =
             (real j / 10 \<le> topping_draws d i \<and> topping_draws d i < real (Suc j) / 10))"
    using pt(2) unfolding k_def by simp
  have sel: "\<forall>t \<in> set (d_toppings ?r). 0 < vt ! nat t" if "0 < sum_list vt"
  proof
    fix t assume "t \<in> set (d_toppings ?r)"
    then have "t \<in> set ts" by simp
    then obtain i where "i < k" "ts ! i = t"
      using ts by (auto simp: in_set_conv_nth)
    then show "0 < vt ! nat t"
      using pt(3) that by blast
  qed
  have c11: "0 < sum_list (nf_toppings ?nf) \<longrightarrow>
          (\<forall>i<Suc (count_draw d). \<forall>j<10.
             (ts ! i = int j) =
             (sum_list (take j (nf_toppings ?nf)) / sum_list (nf_toppings ?nf) \<le> topping_draws d i
              \<and> topping_draws d i
                  < sum_list (take (Suc j) (nf_toppings ?nf)) / sum_list (nf_toppings ?nf)))
          \<and> (\<forall>t \<in> set (d_toppings ?r). 0 < nf_toppings ?nf ! nat t)"
  proof
    assume pos: "0 < sum_list (nf_toppings ?nf)"
    then have pos': "0 < sum_list vt" by simp
    from pt(3) pos' have "\<forall>i<k. \<forall>j<10.
             (ts ! i = int j) =
             (sum_list (take j vt) / sum_list vt \<le> topping_draws d i
              \<and> topping_draws d i < sum_list (take (Suc j) vt) / sum_list vt)"
      by blast
    moreover note sel [OF pos']
    ultimately show "(\<forall>i<Suc (count_draw d). \<forall>j<10.
             (ts ! i = int j) =
             (sum_list (take j (nf_toppings ?nf)) / sum_list (nf_toppings ?nf) \<le> topping_draws d i
              \<and> topping_draws d i
                  < sum_list (take (Suc j) (nf_toppings ?nf)) / sum_list (nf_toppings ?nf)))
          \<and> (\<forall>t \<in> set (d_toppings ?r). 0 < nf_toppings ?nf ! nat t)"
      unfolding k_def by (simp only: novelty_factors.select_convs)
  qed
  have c12: "sum_list (nf_tea_type ?nf) = 0 \<longrightarrow>
          (\<forall>j<8. (d_tea_type ?r = int j) =
             (real j / 8 \<le> tea_draw d \<and> tea_draw d < real (Suc j) / 8))"
    using pa(1) by simp
  have c13: "0 < sum_list (nf_tea_type ?nf) \<longrightarrow>
          (\<forall>j<8. (d_tea_type ?r = int j) =
             (sum_list (take j (nf_tea_type ?nf)) / sum_list (nf_tea_type ?nf) \<le> tea_draw d
              \<and> tea_draw d < sum_list (take (Suc j) (nf_tea_type ?nf)) / sum_list (nf_tea_type ?nf)))
          \<and> 0 < nf_tea_type ?nf ! nat (d_tea_type ?r)"
    using pa(2) by (simp only: novelty_factors.select_convs order_dict.select_convs)
  have c14: "sum_list (nf_ice_category ?nf) = 0 \<longrightarrow>
          (\<forall>j<4. (d_ice_category ?r = int j) =
             (real j / 4 \<le> ice_draw d \<and> ice_draw d < real (Suc j) / 4))"
    using pi(1) by simp
  have c15: "0 < sum_list (nf_ice_category ?nf) \<longrightarrow>
          (\<forall>j<4. (d_ice_category ?r = int j) =
             (sum_list (take j (nf_ice_category ?nf)) / sum_list (nf_ice_category ?nf) \<le> ice_draw d
              \<and> ice_draw d
                  < sum_list (take (Suc j) (nf_ice_category ?nf)) / sum_list (nf_ice_category ?nf)))
          \<and> 0 < nf_ice_category ?nf ! nat (d_ice_category ?r)"
    using pi(2) by (simp only: novelty_factors.select_convs order_dict.select_convs)
  show ?thesis
    apply (rule exI [of _ ?nf])
    apply (rule exI [of _ ?ord])
    apply (rule exI [of _ ?r])
    apply (rule exI [of _ ts])
    apply (intro conjI)
    apply (fact c1 c2 c3 c4 c5 c6 c7 c8 c9 c10 c11 c12 c13 c14 c15)+
    done
qed

theorem selector_distribution_witness:
  "(\<exists>ord r. new_order 5
        [\<lparr>d_toppings = [0], d_tea_type = 1, d_sugar_percentage = 30, d_ice_category = 0,
          d_date = 5\<rparr>]
        \<lparr>count_draw = 0, topping_draws = (\<lambda>_. 1 / 5), tea_draw = 1 / 2, sugar_draw = 1 / 4,
         ice_draw = 9 / 10\<rparr>
      = Inr (ord,
          [\<lparr>d_toppings = [0], d_tea_type = 1, d_sugar_percentage = 30, d_ice_category = 0,
            d_date = 5\<rparr>, r])
      \<and> d_tea_type r = 4 \<and> tea_type ord = ''yogurt'')
   \<and> (\<exists>ord r. new_order 5
        [\<lparr>d_toppings = [0], d_tea_type = 1, d_sugar_percentage = 30, d_ice_category = 0,
          d_date = 5\<rparr>,
         \<lparr>d_toppings = [1], d_tea_type = 1, d_sugar_percentage = 30, d_ice_category = 1,
          d_date = 5\<rparr>,
         \<lparr>d_toppings = [2], d_tea_type = 1, d_sugar_percentage = 30, d_ice_category = 2,
          d_date = 5\<rparr>,
         \<lparr>d_toppings = [3], d_tea_type = 1, d_sugar_percentage = 30, d_ice_category = 3,
          d_date = 5\<rparr>]
        \<lparr>count_draw = 0, topping_draws = (\<lambda>_. 1 / 5), tea_draw = 1 / 2, sugar_draw = 1 / 4,
         ice_draw = 9 / 10\<rparr>
      = Inr (ord,
         [\<lparr>d_toppings = [0], d_tea_type = 1, d_sugar_percentage = 30, d_ice_category = 0,
          d_date = 5\<rparr>,
         \<lparr>d_toppings = [1], d_tea_type = 1, d_sugar_percentage = 30, d_ice_category = 1,
          d_date = 5\<rparr>,
         \<lparr>d_toppings = [2], d_tea_type = 1, d_sugar_percentage = 30, d_ice_category = 2,
          d_date = 5\<rparr>,
         \<lparr>d_toppings = [3], d_tea_type = 1, d_sugar_percentage = 30, d_ice_category = 3,
          d_date = 5\<rparr>, r])
      \<and> d_ice_category r = 3 \<and> ice_category ord = ''more'')"
proof -
  define h where "h = [\<lparr>d_toppings = [0], d_tea_type = 1, d_sugar_percentage = 30,
      d_ice_category = 0, d_date = 5\<rparr>]"
  define g where "g = [\<lparr>d_toppings = [0], d_tea_type = 1, d_sugar_percentage = 30,
        d_ice_category = 0, d_date = 5\<rparr>,
      \<lparr>d_toppings = [1], d_tea_type = 1, d_sugar_percentage = 30, d_ice_category = 1,
        d_date = 5\<rparr>,
      \<lparr>d_toppings = [2], d_tea_type = 1, d_sugar_percentage = 30, d_ice_category = 2,
        d_date = 5\<rparr>,
      \<lparr>d_toppings = [3], d_tea_type = 1, d_sugar_percentage = 30, d_ice_category = 3,
        d_date = 5\<rparr>]"
  define d where "d = \<lparr>count_draw = 0, topping_draws = (\<lambda>_. 1 / 5 :: real), tea_draw = 1 / 2,
      sugar_draw = 1 / 4, ice_draw = 9 / 10\<rparr>"
  have v: "valid_draws d"
    by (simp add: d_def valid_draws_def unit_draw_def list_all_iff)
  have tea_d: "tea_draw d = 1 / 2" and ice_d: "ice_draw d = 9 / 10"
    by (simp_all add: d_def)
  have wfh: "well_formed 5 h" and neh: "h \<noteq> []"
    by (simp_all add: h_def well_formed_def well_formed_record_def)
  have wfg: "well_formed 5 g" and neg: "g \<noteq> []"
    by (simp_all add: g_def well_formed_def well_formed_record_def)
  have cfh: "compute_factors 5 h =
      Inr \<lparr>nf_toppings = [0, 1, 1, 1, 1, 1, 1, 1, 1, 1],
          nf_tea_type = [1, 0, 1, 1, 1, 1, 1, 1], nf_ice_category = [0, 1, 1, 1]\<rparr>"
    by (simp add: h_def compute_factors_def initial_factors_def score_order_def
        novelty_penalty_value penalize_def resolve_def topping_list_def tea_types_def
        ice_categories_def)
  have cfg: "compute_factors 5 g =
      Inr \<lparr>nf_toppings = [0, 0, 0, 0, 1, 1, 1, 1, 1, 1],
          nf_tea_type = [1, 0, 1, 1, 1, 1, 1, 1], nf_ice_category = [0, 0, 0, 0]\<rparr>"
    by (simp add: g_def compute_factors_def initial_factors_def score_order_def
        novelty_penalty_value penalize_def resolve_def topping_list_def tea_types_def
        ice_categories_def)
  have first: "\<exists>ord r. new_order 5 h d = Inr (ord, h @ [r]) \<and> d_tea_type r = 4
      \<and> tea_type ord = ''yogurt''"
    using selector_distribution [OF neh wfh v]
  proof (elim exE conjE)
    fix nf ord r ts
    assume nf: "compute_factors 5 h = Inr nf"
      and res: "new_order 5 h d = Inr (ord, h @ [r])"
      and name: "tea_type ord = tea_types ! nat (d_tea_type r)"
      and weighted: "0 < sum_list (nf_tea_type nf) \<longrightarrow>
          (\<forall>j<8. (d_tea_type r = int j) =
             (sum_list (take j (nf_tea_type nf)) / sum_list (nf_tea_type nf) \<le> tea_draw d
              \<and> tea_draw d < sum_list (take (Suc j) (nf_tea_type nf)) / sum_list (nf_tea_type nf)))
          \<and> 0 < nf_tea_type nf ! nat (d_tea_type r)"
    have w: "nf_tea_type nf = [1, 0, 1, 1, 1, 1, 1, 1]"
      using nf cfh by auto
    have "0 < sum_list (nf_tea_type nf)" by (simp add: w)
    with weighted have "\<forall>j<8. (d_tea_type r = int j) =
             (sum_list (take j (nf_tea_type nf)) / sum_list (nf_tea_type nf) \<le> tea_draw d
              \<and> tea_draw d < sum_list (take (Suc j) (nf_tea_type nf)) / sum_list (nf_tea_type nf))"
      by blast
    from this [rule_format, of 4] have pick: "d_tea_type r = 4"
      by (simp add: w tea_d)
    then have "tea_type ord = ''yogurt''"
      using name by (simp add: tea_types_def)
    then show ?thesis using res pick by blast
  qed
  have second: "\<exists>ord r. new_order 5 g d = Inr (ord, g @ [r]) \<and> d_ice_category r = 3
      \<and> ice_category ord = ''more''"
    using selector_distribution [OF neg wfg v]
  proof (elim exE conjE)
    fix nf ord r ts
    assume nf: "compute_factors 5 g = Inr nf"
      and res: "new_order 5 g d = Inr (ord, g @ [r])"
      and name: "ice_category ord = ice_categories ! nat (d_ice_category r)"
      and uniform: "sum_list (nf_ice_category nf) = 0 \<longrightarrow>
          (\<forall>j<4. (d_ice_category r = int j) =
             (real j / 4 \<le> ice_draw d \<and> ice_draw d < real (Suc j) / 4))"
    have w: "nf_ice_category nf = [0, 0, 0, 0]"
      using nf cfg by auto
    have "sum_list (nf_ice_category nf) = 0" by (simp add: w)
    with uniform have "\<forall>j<4. (d_ice_category r = int j) =
             (real j / 4 \<le> ice_draw d \<and> ice_draw d < real (Suc j) / 4)"
      by blast
    from this [rule_format, of 3] have pick: "d_ice_category r = 3"
      by (simp add: ice_d)
    then have "ice_category ord = ''more''"
      using name by (simp add: ice_categories_def)
    then show ?thesis using res pick by blast
  qed
  show ?thesis
    using first second unfolding h_def g_def d_def by simp
qed

end
